theory Spec2Isabelle
  imports Main "HOL-Library.Word" "HOL-Library.Monad_Syntax"
begin

unbundle bit_operations_syntax

section \<open>FEAL-8 (feal8\_1989\_portable.c): data model\<close>

text \<open>
  The C types of the source, on the host its portability notes describe: an LP64 host
  (\<open>sizeof(long) == 8\<close>, \<open>sizeof(int) == 4\<close>) on which the four bytes of
  \<open>Byte[4]\<close> overlay the low-order half of \<open>All\<close> and the bytes left unwritten are
  "the high bits" (comment in \<open>MakeH1\<close>), that is, a little-endian host.
  \<^item> \<open>ByteType\<close> is \<open>unsigned char\<close>: an 8-bit word;
  \<^item> \<open>HalfWord\<close> is \<open>unsigned long\<close>: a 64-bit word;
  \<^item> \<open>QuarterWord\<close> is \<open>unsigned int\<close>: a 32-bit word.
\<close>

type_synonym ByteType = "8 word"
type_synonym HalfWord = "64 word"
type_synonym QuarterWord = "32 word"

text \<open>
  A union \<open>{ T All; ByteType Byte[k]; }\<close> is a single object of \<open>sizeof(T)\<close> bytes.
  Its state is the list of these bytes. Writing \<open>All\<close> stores the object representation
  of the value (\<open>object_bytes\<close>, least significant byte first), reading \<open>All\<close> reads
  it back (\<open>object_value\<close>), \<open>Byte[i]\<close> is the \<open>i\<close>-th byte of the list.
\<close>

definition object_bytes :: "nat \<Rightarrow> 'a::len word \<Rightarrow> ByteType list" where
  "object_bytes n w = map (\<lambda>i. ucast (drop_bit (8 * i) w)) [0..<n]"

definition object_value :: "ByteType list \<Rightarrow> 'a::len word" where
  "object_value bs = foldr (\<lambda>b acc. ucast b OR push_bit 8 acc) bs 0"

text \<open>
  The program state: the global key schedule (\<open>K\<close>, \<open>K89\<close>, \<open>K1011\<close>, \<open>K1213\<close>,
  \<open>K1415\<close>) and the two \<open>static\<close> variables of \<open>Rot2\<close> (\<open>First\<close> and the table
  \<open>RetVal[256]\<close>).
\<close>

record globals =
  K :: "QuarterWord list"
  K89 :: HalfWord
  K1011 :: HalfWord
  K1213 :: HalfWord
  K1415 :: HalfWord
  Rot2_First :: int
  Rot2_RetVal :: "ByteType list"

text \<open>The state at program start: globals and statics are zero, \<open>First\<close> is 1.\<close>

definition initial_globals :: globals where
  "initial_globals = \<lparr> K = replicate 16 0, K89 = 0, K1011 = 0, K1213 = 0, K1415 = 0,
     Rot2_First = 1, Rot2_RetVal = replicate 256 0 \<rparr>"

section \<open>The nonlinear combiner\<close>

text \<open>
  The initialisation loop of \<open>Rot2\<close>:
  \<^verbatim>\<open>for (i = 0, High = 0, Low = 0; i < 256; ++i)
  { RetVal[i] = High + Low; High += 4; if (High > 255) { High = 0; ++Low; } }\<close>
  The counters are C \<open>int\<close>s that stay below 260, so they are modelled as integers;
  the store into the byte table truncates to 8 bits.
\<close>

function Rot2_loop :: "int \<Rightarrow> int \<Rightarrow> int \<Rightarrow> ByteType list \<Rightarrow> ByteType list" where
  "Rot2_loop i High Low RetVal =
     (if i < 256 then
        let RetVal = RetVal[nat i := word_of_int (High + Low)];
            High = High + 4
        in if High > 255 then Rot2_loop (i + 1) 0 (Low + 1) RetVal
           else Rot2_loop (i + 1) High Low RetVal
      else RetVal)"
  by pat_completeness auto
termination
  by (relation "measure (\<lambda>(i, High, Low, RetVal). nat (256 - i))") auto

declare Rot2_loop.simps [simp del]

definition Rot2 :: "ByteType \<Rightarrow> globals \<Rightarrow> ByteType \<times> globals" where
  "Rot2 X s =
     (let s = (if Rot2_First s \<noteq> 0
               then s\<lparr>Rot2_RetVal := Rot2_loop 0 0 0 (Rot2_RetVal s), Rot2_First := 0\<rparr>
               else s)
      in (Rot2_RetVal s ! unat X, s))"

text \<open>
  \<open>S0\<close> and \<open>S1\<close>: the operands are promoted to \<open>int\<close>, added, masked with
  \<open>0xff\<close> and passed to \<open>Rot2\<close> as a byte.
\<close>

definition S0 :: "ByteType \<Rightarrow> ByteType \<Rightarrow> globals \<Rightarrow> ByteType \<times> globals" where
  "S0 X1 X2 s = Rot2 (word_of_int ((uint X1 + uint X2) AND 0xff)) s"

definition S1 :: "ByteType \<Rightarrow> ByteType \<Rightarrow> globals \<Rightarrow> ByteType \<times> globals" where
  "S1 X1 X2 s = Rot2 (word_of_int ((uint X1 + uint X2 + 1) AND 0xff)) s"

section \<open>Byte and word conversion\<close>

text \<open>
  A \<open>ByteType *\<close> argument is modelled by the list of bytes of the array from the
  pointer onwards. Reading past the end of the array is undefined behaviour in C; the
  model returns \<open>None\<close> there.
\<close>

definition MakeH1 :: "ByteType list \<Rightarrow> HalfWord option" where
  "MakeH1 B =
     (if length B < 4 then None
      else
        let RetVal = object_bytes 8 (0 :: HalfWord);
            RetVal = RetVal[0 := B ! 0];
            RetVal = RetVal[1 := B ! 1];
            RetVal = RetVal[2 := B ! 2];
            RetVal = RetVal[3 := B ! 3]
        in Some (object_value RetVal))"

text \<open>\<open>DissH1\<close> and \<open>DissQ1\<close> return the bytes they write through their pointer.\<close>

definition DissH1 :: "HalfWord \<Rightarrow> ByteType list" where
  "DissH1 H = (let T = object_bytes 8 H in [T ! 0, T ! 1, T ! 2, T ! 3])"

definition DissQ1 :: "QuarterWord \<Rightarrow> ByteType list" where
  "DissQ1 Q = (let QQ = object_bytes 4 Q in [QQ ! 0, QQ ! 1])"

text \<open>\<open>MakeH2\<close> takes the array of quarterwords from the pointer onwards.\<close>

definition MakeH2 :: "QuarterWord list \<Rightarrow> HalfWord option" where
  "MakeH2 Q =
     (if length Q < 2 then None
      else let B = DissQ1 (Q ! 0) @ DissQ1 (Q ! 1) in MakeH1 B)"

section \<open>The round function and the key-schedule combiner\<close>

text \<open>
  The byte operands of \<open>^\<close> are promoted to \<open>int\<close> and the result is truncated to a
  byte again on assignment, which is the exclusive or of the bytes.
\<close>

definition f :: "HalfWord \<Rightarrow> QuarterWord \<Rightarrow> globals \<Rightarrow> HalfWord \<times> globals" where
  "f AA BB s =
     (let RetVal = object_bytes 8 (0 :: HalfWord);
          A = object_bytes 8 AA;
          B = object_bytes 4 BB;
          f1 = A ! 1 XOR B ! 0 XOR A ! 0;
          f2 = A ! 2 XOR B ! 1 XOR A ! 3;
          (f1, s) = S1 f1 f2 s;
          (f2, s) = S0 f2 f1 s;
          RetVal = RetVal[1 := f1];
          RetVal = RetVal[2 := f2];
          (r0, s) = S0 (A ! 0) f1 s;
          RetVal = RetVal[0 := r0];
          (r3, s) = S1 (A ! 3) f2 s;
          RetVal = RetVal[3 := r3]
      in (object_value RetVal, s))"

definition FK :: "HalfWord \<Rightarrow> HalfWord \<Rightarrow> globals \<Rightarrow> HalfWord \<times> globals" where
  "FK AA BB s =
     (let RetVal = object_bytes 8 (0 :: HalfWord);
          A = object_bytes 8 AA;
          B = object_bytes 8 BB;
          FK1 = A ! 1 XOR A ! 0;
          FK2 = A ! 2 XOR A ! 3;
          (FK1, s) = S1 FK1 (FK2 XOR B ! 0) s;
          (FK2, s) = S0 FK2 (FK1 XOR B ! 1) s;
          RetVal = RetVal[1 := FK1];
          RetVal = RetVal[2 := FK2];
          (r0, s) = S0 (A ! 0) (FK1 XOR B ! 2) s;
          RetVal = RetVal[0 := r0];
          (r3, s) = S1 (A ! 3) (FK2 XOR B ! 3) s;
          RetVal = RetVal[3 := r3]
      in (object_value RetVal, s))"

section \<open>Key schedule\<close>

text \<open>
  The loop of \<open>SetKey\<close>. \<open>A\<close>, \<open>B\<close>, \<open>D\<close> are the byte lists of the 8-byte unions,
  \<open>Q\<close> that of the 4-byte union; \<open>Out\<close> is the index into \<open>K\<close> that the pointer
  \<open>Out\<close> stands at.
\<close>

function SetKey_loop ::
  "int \<Rightarrow> nat \<Rightarrow> ByteType list \<Rightarrow> ByteType list \<Rightarrow> ByteType list \<Rightarrow> ByteType list
     \<Rightarrow> globals \<Rightarrow> globals" where
  "SetKey_loop i Out A B D Q s =
     (if i \<le> 8 then
        let (r, s) = FK (object_value A) (object_value B XOR object_value D) s;
            NewB = object_bytes 8 r;
            D = A;
            A = B;
            B = NewB;
            Q = Q[0 := B ! 0];
            Q = Q[1 := B ! 1];
            s = s\<lparr>K := (K s)[Out := object_value Q]\<rparr>;
            Out = Out + 1;
            Q = Q[0 := B ! 2];
            Q = Q[1 := B ! 3];
            s = s\<lparr>K := (K s)[Out := object_value Q]\<rparr>;
            Out = Out + 1
        in SetKey_loop (i + 1) Out A B D Q s
      else s)"
  by pat_completeness auto
termination
  by (relation "measure (\<lambda>(i, Out, A, B, D, Q, s). nat (9 - i))") auto

declare SetKey_loop.simps [simp del]

definition SetKey :: "ByteType list \<Rightarrow> globals \<Rightarrow> globals option" where
  "SetKey KP s =
     (if length KP < 8 then None
      else
        let A = object_bytes 8 (0 :: HalfWord);
            B = object_bytes 8 (0 :: HalfWord);
            Q = object_bytes 4 (0 :: QuarterWord);
            A = A[0 := KP ! 0];
            A = A[1 := KP ! 1];
            A = A[2 := KP ! 2];
            A = A[3 := KP ! 3];
            B = B[0 := KP ! 4];
            B = B[1 := KP ! 5];
            B = B[2 := KP ! 6];
            B = B[3 := KP ! 7];
            D = object_bytes 8 (0 :: HalfWord);
            s = SetKey_loop 1 0 A B D Q s
        in do {
          h \<leftarrow> MakeH2 (drop 8 (K s));
          let s = s\<lparr>K89 := h\<rparr>;
          h \<leftarrow> MakeH2 (drop 10 (K s));
          let s = s\<lparr>K1011 := h\<rparr>;
          h \<leftarrow> MakeH2 (drop 12 (K s));
          let s = s\<lparr>K1213 := h\<rparr>;
          h \<leftarrow> MakeH2 (drop 14 (K s));
          let s = s\<lparr>K1415 := h\<rparr>;
          Some s
        })"

section \<open>Feistel engine\<close>

function Encrypt_loop ::
  "int \<Rightarrow> HalfWord \<Rightarrow> HalfWord \<Rightarrow> globals \<Rightarrow> (HalfWord \<times> HalfWord) \<times> globals" where
  "Encrypt_loop r L R s =
     (if r < 8 then
        let (v, s) = f R (K s ! nat r) s;
            NewR = L XOR v;
            L = R;
            R = NewR
        in Encrypt_loop (r + 1) L R s
      else ((L, R), s))"
  by pat_completeness auto
termination
  by (relation "measure (\<lambda>(r, L, R, s). nat (8 - r))") auto

declare Encrypt_loop.simps [simp del]

text \<open>
  \<open>Encrypt\<close> returns the eight bytes it writes to \<open>Cipher\<close> and the state it leaves.
\<close>

definition Encrypt :: "ByteType list \<Rightarrow> globals \<Rightarrow> (ByteType list \<times> globals) option" where
  "Encrypt Plain s = do {
     L \<leftarrow> MakeH1 Plain;
     R \<leftarrow> MakeH1 (drop 4 Plain);
     let L = L XOR K89 s;
     let R = R XOR K1011 s;
     let R = R XOR L;
     let ((L, R), s) = Encrypt_loop 0 L R s;
     let L = L XOR R;
     let R = R XOR K1213 s;
     let L = L XOR K1415 s;
     Some (DissH1 R @ DissH1 L, s)
   }"

function Decrypt_loop ::
  "int \<Rightarrow> HalfWord \<Rightarrow> HalfWord \<Rightarrow> globals \<Rightarrow> (HalfWord \<times> HalfWord) \<times> globals" where
  "Decrypt_loop r L R s =
     (if r \<ge> 0 then
        let (v, s) = f L (K s ! nat r) s;
            NewL = R XOR v;
            R = L;
            L = NewL
        in Decrypt_loop (r - 1) L R s
      else ((L, R), s))"
  by pat_completeness auto
termination
  by (relation "measure (\<lambda>(r, L, R, s). nat (r + 1))") auto

declare Decrypt_loop.simps [simp del]

definition Decrypt :: "ByteType list \<Rightarrow> globals \<Rightarrow> (ByteType list \<times> globals) option" where
  "Decrypt Cipher s = do {
     R \<leftarrow> MakeH1 Cipher;
     L \<leftarrow> MakeH1 (drop 4 Cipher);
     let R = R XOR K1213 s;
     let L = L XOR K1415 s;
     let L = L XOR R;
     let ((L, R), s) = Decrypt_loop 7 L R s;
     let R = R XOR L;
     let R = R XOR K1011 s;
     let L = L XOR K89 s;
     Some (DissH1 L @ DissH1 R, s)
   }"

section \<open>Derived notions used in the statements\<close>

subsection \<open>Bytes of a word and words of bytes\<close>

text \<open>
  The bytes that the union overlay shows of a value stored through \<open>All\<close>
  (\<open>Byte[0]\<close> to \<open>Byte[3]\<close>), and the value read through \<open>All\<close> from a
  zero-initialised union after its first four (respectively two) bytes have been written.
\<close>

definition byte0 :: "'a::len word \<Rightarrow> ByteType" where
  "byte0 w = ucast w"

definition byte1 :: "'a::len word \<Rightarrow> ByteType" where
  "byte1 w = ucast (drop_bit 8 w)"

definition byte2 :: "'a::len word \<Rightarrow> ByteType" where
  "byte2 w = ucast (drop_bit 16 w)"

definition byte3 :: "'a::len word \<Rightarrow> ByteType" where
  "byte3 w = ucast (drop_bit 24 w)"

definition pack4 :: "ByteType \<Rightarrow> ByteType \<Rightarrow> ByteType \<Rightarrow> ByteType \<Rightarrow> HalfWord" where
  "pack4 a b c d =
     ucast a OR push_bit 8 (ucast b) OR push_bit 16 (ucast c) OR push_bit 24 (ucast d)"

definition pack2 :: "ByteType \<Rightarrow> ByteType \<Rightarrow> QuarterWord" where
  "pack2 a b = ucast a OR push_bit 8 (ucast b)"

text \<open>A halfword is clean when nothing is set above bit 31.\<close>

definition clean :: "HalfWord \<Rightarrow> bool" where
  "clean h \<longleftrightarrow> take_bit 32 h = h"

text \<open>
  The quarterword that \<open>SetKey\<close> assembles in its union \<open>Q\<close> (initialised with
  \<open>{0}\<close>; \<open>Q.Byte[0] = a; Q.Byte[1] = b;\<close> then \<open>Q.All\<close> is read). The source
  has no function of its own for this conversion.
\<close>

definition SetKey_Q :: "ByteType \<Rightarrow> ByteType \<Rightarrow> QuarterWord" where
  "SetKey_Q a b =
     (let Q = object_bytes 4 (0 :: QuarterWord);
          Q = Q[0 := a];
          Q = Q[1 := b]
      in object_value Q)"

subsection \<open>The rotation and the state of its table\<close>

definition rot2w :: "ByteType \<Rightarrow> ByteType" where
  "rot2w v = push_bit 2 v OR drop_bit 6 v"

definition tab_entry :: "int \<Rightarrow> ByteType" where
  "tab_entry i = word_of_int (4 * (i mod 64) + i div 64)"

definition rot2_table :: "ByteType list" where
  "rot2_table = map (\<lambda>j. rot2w (of_nat j)) [0..<256]"

text \<open>
  The invariant of the statics of \<open>Rot2\<close>: the table has its 256 entries, and once
  \<open>First\<close> has been cleared the table is the one that the initialisation loop builds
  (it overwrites all 256 entries of the zeroed static array). It holds at program start
  and \<open>Rot2\<close> is the only function that writes the statics.
\<close>

definition Rot2_inv :: "globals \<Rightarrow> bool" where
  "Rot2_inv s \<longleftrightarrow>
     length (Rot2_RetVal s) = 256
     \<and> (Rot2_First s = 0 \<longrightarrow> Rot2_RetVal s = Rot2_loop 0 0 0 (replicate 256 0))"

text \<open>The state after the table has been built.\<close>

definition tab_done :: "globals \<Rightarrow> globals" where
  "tab_done s = s\<lparr>Rot2_RetVal := rot2_table, Rot2_First := 0\<rparr>"

text \<open>Well-formed states: \<open>K\<close> has its 16 entries and the table invariant holds.\<close>

definition globals_ok :: "globals \<Rightarrow> bool" where
  "globals_ok s \<longleftrightarrow> length (K s) = 16 \<and> Rot2_inv s"

definition schedule ::
  "globals \<Rightarrow> QuarterWord list \<times> HalfWord \<times> HalfWord \<times> HalfWord \<times> HalfWord" where
  "schedule s = (K s, K89 s, K1011 s, K1213 s, K1415 s)"

subsection \<open>Values of the round function and of the key-schedule combiner\<close>

definition f_val :: "HalfWord \<Rightarrow> QuarterWord \<Rightarrow> HalfWord" where
  "f_val AA BB =
     (let t1 = byte1 AA XOR byte0 BB XOR byte0 AA;
          t2 = byte2 AA XOR byte1 BB XOR byte3 AA;
          t1' = rot2w (t1 + t2 + 1);
          t2' = rot2w (t2 + t1')
      in pack4 (rot2w (byte0 AA + t1')) t1' t2' (rot2w (byte3 AA + t2' + 1)))"

definition FK_val :: "HalfWord \<Rightarrow> HalfWord \<Rightarrow> HalfWord" where
  "FK_val AA BB =
     (let t1 = byte1 AA XOR byte0 AA;
          t2 = byte2 AA XOR byte3 AA;
          t1' = rot2w (t1 + (t2 XOR byte0 BB) + 1);
          t2' = rot2w (t2 + (t1' XOR byte1 BB))
      in pack4 (rot2w (byte0 AA + (t1' XOR byte2 BB))) t1' t2'
               (rot2w (byte3 AA + (t2' XOR byte3 BB) + 1)))"

definition enc_round ::
  "QuarterWord list \<Rightarrow> HalfWord \<times> HalfWord \<Rightarrow> nat \<Rightarrow> HalfWord \<times> HalfWord" where
  "enc_round Ks LR r = (snd LR, fst LR XOR f_val (snd LR) (Ks ! r))"

definition dec_round ::
  "QuarterWord list \<Rightarrow> HalfWord \<times> HalfWord \<Rightarrow> nat \<Rightarrow> HalfWord \<times> HalfWord" where
  "dec_round Ks LR r = (snd LR XOR f_val (fst LR) (Ks ! r), fst LR)"

section \<open>The specification's formulations\<close>

text \<open>
  The definitions of this section follow the words of the specification, not the code;
  the theorems compare them with the code.
\<close>

text \<open>
  Specification 4.2: \<open>rot2(v) = ((v << 2) | (v >> 6)) & 0xFF\<close>,
  \<open>S0(x1, x2) = rot2((x1 + x2) mod 256)\<close>, \<open>S1(x1, x2) = rot2((x1 + x2 + 1) mod 256)\<close>.
\<close>

definition rot2_direct :: "nat \<Rightarrow> nat" where
  "rot2_direct v = (push_bit 2 v OR drop_bit 6 v) AND 0xFF"

definition S0_direct :: "nat \<Rightarrow> nat \<Rightarrow> nat" where
  "S0_direct x1 x2 = rot2_direct ((x1 + x2) mod 256)"

definition S1_direct :: "nat \<Rightarrow> nat \<Rightarrow> nat" where
  "S1_direct x1 x2 = rot2_direct ((x1 + x2 + 1) mod 256)"

text \<open>Specification 4.1: \<open>bytes_to_halfword(b0,b1,b2,b3) = (b0<<24)|(b1<<16)|(b2<<8)|b3\<close>.\<close>

definition bytes_to_halfword :: "ByteType \<Rightarrow> ByteType \<Rightarrow> ByteType \<Rightarrow> ByteType \<Rightarrow> HalfWord" where
  "bytes_to_halfword b0 b1 b2 b3 =
     push_bit 24 (ucast b0) OR push_bit 16 (ucast b1) OR push_bit 8 (ucast b2) OR ucast b3"

text \<open>
  Specification 4.3, on bytes: from the bytes \<open>a0, a1, a2, a3\<close> of \<open>A\<close> and
  \<open>b0, b1\<close> of \<open>B\<close>, \<open>t1 = a1 \<oplus> b0 \<oplus> a0\<close>, \<open>t2 = a2 \<oplus> b1 \<oplus> a3\<close>,
  \<open>t1' = S1(t1, t2)\<close>, \<open>t2' = S0(t2, t1')\<close>, and the output bytes, in order, are
  \<open>(S0(a0, t1'), t1', t2', S1(a3, t2'))\<close>.
\<close>

definition f_bytes ::
  "ByteType \<Rightarrow> ByteType \<Rightarrow> ByteType \<Rightarrow> ByteType \<Rightarrow> ByteType \<Rightarrow> ByteType \<Rightarrow> ByteType list" where
  "f_bytes a0 a1 a2 a3 b0 b1 =
     (let t1 = a1 XOR b0 XOR a0;
          t2 = a2 XOR b1 XOR a3;
          t1' = of_nat (S1_direct (unat t1) (unat t2)) :: ByteType;
          t2' = of_nat (S0_direct (unat t2) (unat t1')) :: ByteType
      in [of_nat (S0_direct (unat a0) (unat t1')), t1', t2',
          of_nat (S1_direct (unat a3) (unat t2'))])"

text \<open>
  The same with the byte numbering of specification 4.1 and 4.3 read as a numeric
  one: byte 0 is the most significant byte of the 32-bit (16-bit) value, and the output
  bytes are reassembled with \<open>bytes_to_halfword\<close>.
\<close>

definition f_msb_first :: "HalfWord \<Rightarrow> QuarterWord \<Rightarrow> HalfWord" where
  "f_msb_first A B =
     (case f_bytes (ucast (drop_bit 24 A)) (ucast (drop_bit 16 A)) (ucast (drop_bit 8 A)) (ucast A)
                   (ucast (drop_bit 8 B)) (ucast B) of
        [r0, r1, r2, r3] \<Rightarrow> bytes_to_halfword r0 r1 r2 r3
      | _ \<Rightarrow> 0)"

text \<open>
  Specification 4.5, the recurrence of the key schedule with the combiner \<open>FKv\<close>:
  \<open>NewB = FK(A, B \<oplus> D)\<close>; then \<open>D \<leftarrow> A; A \<leftarrow> B; B \<leftarrow> NewB\<close>; the two quarterwords
  of bytes \<open>(B[0], B[1])\<close> and \<open>(B[2], B[3])\<close> are emitted in that order.
  \<open>key_rounds FKv n A B D\<close> is the list emitted by \<open>n\<close> iterations.
\<close>

fun key_rounds ::
  "(HalfWord \<Rightarrow> HalfWord \<Rightarrow> HalfWord) \<Rightarrow> nat \<Rightarrow> HalfWord \<Rightarrow> HalfWord \<Rightarrow> HalfWord
     \<Rightarrow> QuarterWord list" where
  "key_rounds FKv 0 A B D = []"
| "key_rounds FKv (Suc n) A B D =
     (let NewB = FKv A (B XOR D);
          D = A;
          A = B;
          B = NewB
      in pack2 (byte0 B) (byte1 B) # pack2 (byte2 B) (byte3 B) # key_rounds FKv n A B D)"

text \<open>\<open>from(q0, q1)\<close>: the 2+2 bytes of \<open>q0\<close>, then \<open>q1\<close>, packed into one halfword.\<close>

definition whitening :: "QuarterWord \<Rightarrow> QuarterWord \<Rightarrow> HalfWord" where
  "whitening q0 q1 = pack4 (byte0 q0) (byte1 q0) (byte0 q1) (byte1 q1)"

definition SetKey_spec ::
  "(HalfWord \<Rightarrow> HalfWord \<Rightarrow> HalfWord) \<Rightarrow> ByteType list \<Rightarrow> globals \<Rightarrow> globals" where
  "SetKey_spec FKv KP s =
     (let A = pack4 (KP ! 0) (KP ! 1) (KP ! 2) (KP ! 3);
          B = pack4 (KP ! 4) (KP ! 5) (KP ! 6) (KP ! 7);
          D = 0;
          Ks = key_rounds FKv 8 A B D
      in s\<lparr>K := Ks,
           K89 := whitening (Ks ! 8) (Ks ! 9),
           K1011 := whitening (Ks ! 10) (Ks ! 11),
           K1213 := whitening (Ks ! 12) (Ks ! 13),
           K1415 := whitening (Ks ! 14) (Ks ! 15)\<rparr>)"

text \<open>
  Specification 4.6 with the round function \<open>F\<close>: pre-whitening, the rounds
  \<open>r = 0, 1, \<dots>, 7\<close> in this order, post-whitening; the result is the pair of the
  halfword unpacked first and the halfword unpacked second.
\<close>

definition Encrypt_spec ::
  "(HalfWord \<Rightarrow> QuarterWord \<Rightarrow> HalfWord) \<Rightarrow> globals \<Rightarrow> HalfWord \<Rightarrow> HalfWord
     \<Rightarrow> HalfWord \<times> HalfWord" where
  "Encrypt_spec F s L R =
     (let L = L XOR K89 s;
          R = R XOR K1011 s;
          R = R XOR L;
          (L, R) = foldl (\<lambda>(L, R) r. (R, L XOR F R (K s ! r))) (L, R) [0..<8];
          L = L XOR R;
          R = R XOR K1213 s;
          L = L XOR K1415 s
      in (R, L))"

text \<open>Specification 4.7, likewise, with the rounds \<open>r = 7, 6, \<dots>, 0\<close>.\<close>

definition Decrypt_spec ::
  "(HalfWord \<Rightarrow> QuarterWord \<Rightarrow> HalfWord) \<Rightarrow> globals \<Rightarrow> HalfWord \<Rightarrow> HalfWord
     \<Rightarrow> HalfWord \<times> HalfWord" where
  "Decrypt_spec F s R L =
     (let R = R XOR K1213 s;
          L = L XOR K1415 s;
          L = L XOR R;
          (L, R) = foldl (\<lambda>(L, R) r. (R XOR F L (K s ! r), L)) (L, R) (rev [0..<8]);
          R = R XOR L;
          R = R XOR K1011 s;
          L = L XOR K89 s
      in (L, R))"

section \<open>Auxiliary lemmas\<close>

lemma upt8: "[0..<8] = [0,1,2,3,4,5,6,7]" by (simp add: upt_rec)
lemma upt4: "[0..<4] = [0,1,2,3]" by (simp add: upt_rec)
lemma replicate8: "replicate 8 x = [x,x,x,x,x,x,x,x]" by (simp add: numeral_eq_Suc)
lemma replicate4: "replicate 4 x = [x,x,x,x]" by (simp add: numeral_eq_Suc)

lemma object_bytes_8:
  "object_bytes 8 w = [byte0 w, byte1 w, byte2 w, byte3 w,
     ucast (drop_bit 32 w), ucast (drop_bit 40 w), ucast (drop_bit 48 w), ucast (drop_bit 56 w)]"
  by (simp add: object_bytes_def upt8 byte0_def byte1_def byte2_def byte3_def)

lemma object_bytes_4:
  "object_bytes 4 w = [byte0 w, byte1 w, byte2 w, byte3 w]"
  by (simp add: object_bytes_def upt4 byte0_def byte1_def byte2_def byte3_def)

lemma object_bytes_0: "object_bytes n 0 = replicate n 0"
  by (simp add: object_bytes_def map_replicate_const)

lemma ov_long: "(object_value [a,b,c,d,0,0,0,0] :: HalfWord) = pack4 a b c d"
  by (simp add: object_value_def pack4_def push_bit_or or.assoc)

lemma ov_int: "(object_value [a,b,0,0] :: QuarterWord) = pack2 a b"
  by (simp add: object_value_def pack2_def push_bit_or or.assoc)

lemma bit_pack4: "bit (pack4 a b c d) n \<longleftrightarrow>
   (n < 8 \<and> bit a n) \<or> (8 \<le> n \<and> n < 16 \<and> bit b (n - 8)) \<or> (16 \<le> n \<and> n < 24 \<and> bit c (n - 16))
   \<or> (24 \<le> n \<and> n < 32 \<and> bit d (n - 24))"
  unfolding pack4_def
  by (auto simp: bit_simps dest: bit_imp_le_length)

lemma bit_pack2: "bit (pack2 a b) n \<longleftrightarrow>
   (n < 8 \<and> bit a n) \<or> (8 \<le> n \<and> n < 16 \<and> bit b (n - 8))"
  unfolding pack2_def
  by (auto simp: bit_simps dest: bit_imp_le_length)

lemma lt32_iff: "(x::HalfWord) < 2^32 \<longleftrightarrow> take_bit 32 x = x"
  using mask_eq_iff_w2p[of 32 x] by (simp add: take_bit_eq_mask word_size)

lemma lt16_iff: "(x::QuarterWord) < 2^16 \<longleftrightarrow> take_bit 16 x = x"
  using mask_eq_iff_w2p[of 16 x] by (simp add: take_bit_eq_mask word_size)

lemma clean_lt: "clean h \<longleftrightarrow> h < 2 ^ 32"
  by (simp only: clean_def lt32_iff)

lemma clean_pack4 [simp]: "clean (pack4 a b c d)"
  unfolding clean_def by (rule bit_eqI) (auto simp: bit_take_bit_iff bit_pack4)

lemma pack4_lt: "pack4 a b c d < 2^32"
  using clean_pack4 unfolding clean_lt .

lemma take_bit_pack2: "take_bit 16 (pack2 a b) = pack2 a b"
  by (rule bit_eqI) (auto simp: bit_take_bit_iff bit_pack2)

lemma pack2_lt: "pack2 a b < 2^16"
  unfolding lt16_iff by (rule take_bit_pack2)

lemma clean_xor [simp]: "clean x \<Longrightarrow> clean y \<Longrightarrow> clean (x XOR y)"
  by (simp add: clean_def)

lemma clean_0 [simp]: "clean 0" by (simp add: clean_def)

lemma byte0_pack4 [simp]: "byte0 (pack4 a b c d) = a"
  unfolding byte0_def by (rule bit_eqI) (auto simp: bit_simps bit_pack4)
lemma byte1_pack4 [simp]: "byte1 (pack4 a b c d) = b"
  unfolding byte1_def by (rule bit_eqI) (auto simp: bit_simps bit_pack4)
lemma byte2_pack4 [simp]: "byte2 (pack4 a b c d) = c"
  unfolding byte2_def by (rule bit_eqI) (auto simp: bit_simps bit_pack4)
lemma byte3_pack4 [simp]: "byte3 (pack4 a b c d) = d"
  unfolding byte3_def by (rule bit_eqI) (auto simp: bit_simps bit_pack4)
lemma byte0_pack2 [simp]: "byte0 (pack2 a b) = a"
  unfolding byte0_def by (rule bit_eqI) (auto simp: bit_simps bit_pack2)
lemma byte1_pack2 [simp]: "byte1 (pack2 a b) = b"
  unfolding byte1_def by (rule bit_eqI) (auto simp: bit_simps bit_pack2)

lemma pack4_bytes: "pack4 (byte0 h) (byte1 h) (byte2 h) (byte3 h) = take_bit 32 (h::HalfWord)"
proof (rule bit_eqI)
  fix n :: nat
  consider "n < 8" | "8 \<le> n" "n < 16" | "16 \<le> n" "n < 24" | "24 \<le> n" "n < 32" | "32 \<le> n"
    by linarith
  then show "bit (pack4 (byte0 h) (byte1 h) (byte2 h) (byte3 h)) n = bit (take_bit 32 h) n"
    unfolding byte0_def byte1_def byte2_def byte3_def
    by cases (auto simp: bit_pack4 bit_simps)
qed

lemma pack2_bytes: "pack2 (byte0 h) (byte1 h) = take_bit 16 (h::QuarterWord)"
proof (rule bit_eqI)
  fix n :: nat
  consider "n < 8" | "8 \<le> n" "n < 16" | "16 \<le> n" 
    by linarith
  then show "bit (pack2 (byte0 h) (byte1 h)) n = bit (take_bit 16 h) n"
    unfolding byte0_def byte1_def
    by cases (auto simp: bit_pack2 bit_simps)
qed

lemma clean_pack4_eq: "clean h \<Longrightarrow> pack4 (byte0 h) (byte1 h) (byte2 h) (byte3 h) = h"
  by (simp add: pack4_bytes clean_def)

lemma clean_drop_bit: "clean h \<Longrightarrow> drop_bit (n + 32) h = 0"
proof -
  assume "clean h"
  then have "drop_bit 32 h = 0"
    by (simp add: clean_def take_bit_eq_self_iff_drop_bit_eq_0)
  then have "drop_bit n (drop_bit 32 h) = 0" by simp
  then show ?thesis by (simp only: drop_bit_drop_bit)
qed

lemma object_bytes_clean:
  assumes "clean h"
  shows "object_bytes 8 h = [byte0 h, byte1 h, byte2 h, byte3 h, 0, 0, 0, 0]"
  using clean_drop_bit[OF assms, of 0] clean_drop_bit[OF assms, of 8]
        clean_drop_bit[OF assms, of 16] clean_drop_bit[OF assms, of 24]
  by (simp add: object_bytes_8)

lemma object_value_clean: "clean h \<Longrightarrow> object_value (object_bytes 8 h) = h"
  by (simp add: object_bytes_clean ov_long clean_pack4_eq)

lemma step_wrap:
  fixes i :: int
  assumes "i mod 64 = 63"
  shows "(i + 1) mod 64 = 0" "(i + 1) div 64 = i div 64 + 1"
proof -
  have e: "i + 1 = 64 * (i div 64 + 1) + 0"
    using assms mult_div_mod_eq[of 64 i] by simp
  show "(i + 1) mod 64 = 0" by (subst e) simp
  show "(i + 1) div 64 = i div 64 + 1" by (subst e) simp
qed

lemma step_nowrap:
  fixes i :: int
  assumes "i mod 64 \<noteq> 63"
  shows "(i + 1) mod 64 = i mod 64 + 1" "(i + 1) div 64 = i div 64"
proof -
  have b: "0 \<le> i mod 64" "i mod 64 < 64" by simp_all
  have e: "i + 1 = 64 * (i div 64) + (i mod 64 + 1)"
    using mult_div_mod_eq[of 64 i] by simp
  have r: "0 \<le> i mod 64 + 1" "i mod 64 + 1 < 64" using b assms by linarith+
  show "(i + 1) mod 64 = i mod 64 + 1" 
    by (rule int_mod_pos_eq[OF e r])
  show "(i + 1) div 64 = i div 64"
    by (rule int_div_pos_eq[OF e r])
qed

lemma Rot2_loop_nth:
  "0 \<le> i \<Longrightarrow> High = 4 * (i mod 64) \<Longrightarrow> Low = i div 64 \<Longrightarrow> length tab = 256 \<Longrightarrow>
   length (Rot2_loop i High Low tab) = 256 \<and>
   (\<forall>j<256. Rot2_loop i High Low tab ! j = (if int j < i then tab ! j else tab_entry (int j)))"
proof (induction i High Low tab rule: Rot2_loop.induct)
  case (1 i High Low RetVal)
  show ?case
  proof (cases "i < 256")
    case False
    have "Rot2_loop i High Low RetVal = RetVal"
      using False by (subst Rot2_loop.simps) simp
    then show ?thesis using False "1.prems" by auto
  next
    case True
    let ?tab = "RetVal[nat i := word_of_int (High + Low)]"
    have len: "length ?tab = 256" using "1.prems" by simp
    have entry: "word_of_int (High + Low) = tab_entry i"
      using "1.prems" by (simp add: tab_entry_def)
    have i1: "0 \<le> i + 1" using "1.prems" by simp
    have upd: "\<And>j. j < 256 \<Longrightarrow> (if int j < i + 1 then ?tab ! j else tab_entry (int j))
                 = (if int j < i then RetVal ! j else tab_entry (int j))"
    proof -
      fix j :: nat assume j: "j < 256"
      consider "int j < i" | "int j = i" | "i < int j" by linarith
      then show "(if int j < i + 1 then ?tab ! j else tab_entry (int j))
                 = (if int j < i then RetVal ! j else tab_entry (int j))"
      proof cases
        case 1
        then have "nat i \<noteq> j" by linarith
        then show ?thesis using 1 by simp
      next
        case 2
        then have "nat i = j" by linarith
        then show ?thesis using 2 j "1.prems"(4) entry by simp
      next
        case 3
        then show ?thesis by simp
      qed
    qed
    show ?thesis
    proof (cases "High + 4 > 255")
      case wrap: True
      have m: "i mod 64 = 63" using wrap "1.prems"(2) pos_mod_bound[of 64 i] by linarith
      have a: "(0::int) = 4 * ((i + 1) mod 64)" "Low + 1 = (i + 1) div 64"
        using step_wrap[OF m] "1.prems"(3) by simp_all
      have r: "Rot2_loop i High Low RetVal = Rot2_loop (i + 1) 0 (Low + 1) ?tab"
        using True wrap by (subst Rot2_loop.simps) (simp add: Let_def)
      have ih: "length (Rot2_loop (i + 1) 0 (Low + 1) ?tab) = 256 \<and>
        (\<forall>j<256. Rot2_loop (i + 1) 0 (Low + 1) ?tab ! j = (if int j < i + 1 then ?tab ! j else tab_entry (int j)))"
        by (rule "1.IH"(1)[OF True refl refl wrap i1 a len])
      show ?thesis unfolding r using ih upd by simp
    next
      case nowrap: False
      have m: "i mod 64 \<noteq> 63" using nowrap "1.prems"(2) by linarith
      have a: "High + 4 = 4 * ((i + 1) mod 64)" "Low = (i + 1) div 64"
        using step_nowrap[OF m] "1.prems"(2,3) by simp_all
      have r: "Rot2_loop i High Low RetVal = Rot2_loop (i + 1) (High + 4) Low ?tab"
        using True nowrap by (subst Rot2_loop.simps) (simp add: Let_def)
      have ih: "length (Rot2_loop (i + 1) (High + 4) Low ?tab) = 256 \<and>
        (\<forall>j<256. Rot2_loop (i + 1) (High + 4) Low ?tab ! j = (if int j < i + 1 then ?tab ! j else tab_entry (int j)))"
        by (rule "1.IH"(2)[OF True refl refl nowrap i1 a len])
      show ?thesis unfolding r using ih upd by simp
    qed
  qed
qed

lemma rot2w_disj: "push_bit 2 (v::ByteType) AND drop_bit 6 v = 0"
proof (rule bit_eqI)
  fix n :: nat
  show "bit (push_bit 2 v AND drop_bit 6 v) n = bit (0::ByteType) n"
    using bit_imp_le_length[of v "6 + n"] by (auto simp: bit_simps)
qed

lemma wi_push: "(word_of_int (4 * (uint v mod 64)) :: ByteType) = push_bit 2 v"
proof -
  have "(word_of_int (4 * (uint v mod 64)) :: ByteType) = word_of_int (push_bit 2 (take_bit 6 (uint v)))"
    by (simp add: push_bit_eq_mult take_bit_eq_mod)
  also have "\<dots> = push_bit 2 v"
    by (rule bit_eqI) (auto simp: bit_simps)
  finally show ?thesis .
qed

lemma wi_drop: "(word_of_int (uint v div 64) :: ByteType) = drop_bit 6 v"
proof -
  have "(word_of_int (uint v div 64) :: ByteType) = word_of_int (drop_bit 6 (uint v))"
    by (simp add: drop_bit_eq_div)
  also have "\<dots> = drop_bit 6 v"
    by (rule bit_eqI) (auto simp: bit_simps)
  finally show ?thesis .
qed

lemma tab_entry_rot2w: "tab_entry (uint v) = rot2w v"
proof -
  have "tab_entry (uint v) = word_of_int (4 * (uint v mod 64)) + word_of_int (uint v div 64)"
    unfolding tab_entry_def by (rule wi_hom_add[symmetric])
  also have "\<dots> = push_bit 2 v + drop_bit 6 v"
    by (simp only: wi_push wi_drop)
  also have "\<dots> = rot2w v"
    unfolding rot2w_def by (rule disjunctive_add_eq_or[OF rot2w_disj])
  finally show ?thesis .
qed

lemma S_arg: "(word_of_int (k AND 0xff) :: ByteType) = word_of_int k"
proof -
  have "k AND 0xff = take_bit 8 k" by (simp add: take_bit_eq_mask mask_eq_exp_minus_1)
  then show ?thesis by (simp add: word_of_int_eq_iff)
qed

lemma S0_arg: "(word_of_int ((uint X1 + uint X2) AND 0xff) :: ByteType) = X1 + X2"
  by (simp only: S_arg) simp

lemma S1_arg: "(word_of_int ((uint X1 + uint X2 + 1) AND 0xff) :: ByteType) = X1 + X2 + 1"
  by (simp only: S_arg) simp

lemma Rot2_loop_table:
  assumes "length tab = 256"
  shows "Rot2_loop 0 0 0 tab = rot2_table"
proof (rule nth_equalityI)
  note L = Rot2_loop_nth[of 0 0 0 tab, simplified, OF assms]
  show "length (Rot2_loop 0 0 0 tab) = length rot2_table"
    using L by (simp add: rot2_table_def)
  fix j assume "j < length (Rot2_loop 0 0 0 tab)"
  then have j: "j < 256" using L by simp
  have u: "uint (of_nat j :: ByteType) = int j"
    using j by (simp add: uint_nat unat_of_nat)
  have "Rot2_loop 0 0 0 tab ! j = tab_entry (int j)" using L j by simp
  also have "\<dots> = rot2w (of_nat j)" using tab_entry_rot2w[of "of_nat j"] u by simp
  finally show "Rot2_loop 0 0 0 tab ! j = rot2_table ! j"
    using j by (simp add: rot2_table_def)
qed

lemma rot2_table_nth: "rot2_table ! unat (X::ByteType) = rot2w X"
proof -
  have "unat X < 256" using unsigned_less[of X, where 'a=nat] by simp
  then show ?thesis by (simp add: rot2_table_def)
qed

lemma Rot2_inv_iff:
  "Rot2_inv s \<longleftrightarrow>
     length (Rot2_RetVal s) = 256 \<and> (Rot2_First s = 0 \<longrightarrow> Rot2_RetVal s = rot2_table)"
  by (simp add: Rot2_inv_def Rot2_loop_table)

lemma Rot2_inv_tab_done [simp]: "Rot2_inv (tab_done s)"
  by (simp add: Rot2_inv_iff tab_done_def rot2_table_def)

lemma tab_done_idem [simp]: "tab_done (tab_done s) = tab_done s"
  by (simp add: tab_done_def)

lemma tab_done_fields [simp]:
  "K (tab_done s) = K s" "K89 (tab_done s) = K89 s" "K1011 (tab_done s) = K1011 s"
  "K1213 (tab_done s) = K1213 s" "K1415 (tab_done s) = K1415 s"
  by (simp_all add: tab_done_def)

lemma Rot2_inv_initial: "Rot2_inv initial_globals"
  by (simp add: Rot2_inv_iff initial_globals_def)

lemma Rot2_eq: "Rot2_inv s \<Longrightarrow> Rot2 X s = (rot2w X, tab_done s)"
  by (cases s) (auto simp: Rot2_def Rot2_inv_iff tab_done_def Rot2_loop_table rot2_table_nth)

lemma S0_eq: "Rot2_inv s \<Longrightarrow> S0 X1 X2 s = (rot2w (X1 + X2), tab_done s)"
  unfolding S0_def S0_arg by (rule Rot2_eq)

lemma S1_eq: "Rot2_inv s \<Longrightarrow> S1 X1 X2 s = (rot2w (X1 + X2 + 1), tab_done s)"
  unfolding S1_def S1_arg by (rule Rot2_eq)

lemma schedule_Rot2: "schedule (snd (Rot2 X s)) = schedule s"
  by (simp add: Rot2_def schedule_def Let_def)

lemma schedule_S0: "schedule (snd (S0 X1 X2 s)) = schedule s"
  unfolding S0_def by (rule schedule_Rot2)

lemma schedule_S1: "schedule (snd (S1 X1 X2 s)) = schedule s"
  unfolding S1_def by (rule schedule_Rot2)

lemmas union_simps = object_bytes_0 replicate8 replicate4 ov_long ov_int object_bytes_8 object_bytes_4

lemma f_eq: "Rot2_inv s \<Longrightarrow> f AA BB s = (f_val AA BB, tab_done s)"
  by (simp add: f_def f_val_def Let_def S0_eq S1_eq union_simps)

lemma FK_eq: "Rot2_inv s \<Longrightarrow> FK AA BB s = (FK_val AA BB, tab_done s)"
  by (simp add: FK_def FK_val_def Let_def S0_eq S1_eq union_simps)

lemma schedule_f: "schedule (snd (f AA BB s)) = schedule s"
  by (simp add: f_def Let_def case_prod_beta schedule_S0 schedule_S1)

lemma schedule_FK: "schedule (snd (FK AA BB s)) = schedule s"
  by (simp add: FK_def Let_def case_prod_beta schedule_S0 schedule_S1)

lemma f_pack4: "\<exists>a b c d. fst (f AA BB s) = pack4 a b c d"
  by (simp add: f_def Let_def case_prod_beta object_bytes_0 replicate8 ov_long) (intro exI, rule refl)

lemma FK_pack4: "\<exists>a b c d. fst (FK AA BB s) = pack4 a b c d"
  by (simp add: FK_def Let_def case_prod_beta object_bytes_0 replicate8 ov_long) (intro exI, rule refl)

lemma clean_f_val [simp]: "clean (f_val AA BB)"
  by (simp add: f_val_def Let_def)

lemma clean_FK_val [simp]: "clean (FK_val AA BB)"
  by (simp add: FK_val_def Let_def)

lemma MakeH1_eq: "4 \<le> length B \<Longrightarrow> MakeH1 B = Some (pack4 (B ! 0) (B ! 1) (B ! 2) (B ! 3))"
  by (simp add: MakeH1_def Let_def object_bytes_0 replicate8 ov_long)

lemma MakeH1_None: "length B < 4 \<Longrightarrow> MakeH1 B = None"
  by (simp add: MakeH1_def)

lemma DissH1_eq: "DissH1 H = [byte0 H, byte1 H, byte2 H, byte3 H]"
  by (simp add: DissH1_def Let_def object_bytes_8)

lemma DissQ1_eq: "DissQ1 Q = [byte0 Q, byte1 Q]"
  by (simp add: DissQ1_def Let_def object_bytes_4)

lemma MakeH1_DissH1: "MakeH1 (DissH1 H) = Some (take_bit 32 H)"
  by (simp add: MakeH1_eq DissH1_eq pack4_bytes)

lemma DissH1_pack4: "DissH1 (pack4 a b c d) = [a, b, c, d]"
  by (simp add: DissH1_eq)

lemma MakeH2_eq:
  "2 \<le> length Q \<Longrightarrow> MakeH2 Q = Some (pack4 (byte0 (Q ! 0)) (byte1 (Q ! 0)) (byte0 (Q ! 1)) (byte1 (Q ! 1)))"
  by (simp add: MakeH2_def Let_def DissQ1_eq MakeH1_eq)

lemma enc_round_pair: "enc_round Ks (L, R) r = (R, L XOR f_val R (Ks ! r))"
  by (simp add: enc_round_def)

lemma dec_round_pair: "dec_round Ks (L, R) r = (R XOR f_val L (Ks ! r), L)"
  by (simp add: dec_round_def)

lemma Rot2_inv_upd [simp]:
  "Rot2_inv (s\<lparr>K := k\<rparr>) = Rot2_inv s"
  "Rot2_inv (s\<lparr>K89 := h\<rparr>) = Rot2_inv s"
  "Rot2_inv (s\<lparr>K1011 := h\<rparr>) = Rot2_inv s"
  "Rot2_inv (s\<lparr>K1213 := h\<rparr>) = Rot2_inv s"
  "Rot2_inv (s\<lparr>K1415 := h\<rparr>) = Rot2_inv s"
  by (simp_all add: Rot2_inv_iff)

lemma Encrypt_loop_eq:
  "Rot2_inv s \<Longrightarrow> 0 \<le> r \<Longrightarrow> nat (8 - r) = n \<Longrightarrow>
   Encrypt_loop r L R s =
     (foldl (enc_round (K s)) (L, R) [nat r..<8], if r < 8 then tab_done s else s)"
proof (induction n arbitrary: r L R s)
  case 0
  then have "\<not> r < 8" by linarith
  moreover from this have "[nat r..<8] = []" by simp
  ultimately show ?case by (subst Encrypt_loop.simps) simp
next
  case (Suc n)
  then have r: "r < 8" by linarith
  have n: "nat (8 - (r + 1)) = n" using Suc.prems by linarith
  have u: "[nat r..<8] = nat r # [nat (r + 1)..<8]"
    using r Suc.prems(2) by (simp add: upt_conv_Cons nat_add_distrib)
  have "Encrypt_loop r L R s
      = Encrypt_loop (r + 1) R (L XOR f_val R (K s ! nat r)) (tab_done s)"
    using r by (subst Encrypt_loop.simps) (simp add: f_eq[OF Suc.prems(1)])
  also have "\<dots> = (foldl (enc_round (K s)) (R, L XOR f_val R (K s ! nat r)) [nat (r + 1)..<8], tab_done s)"
    using Suc.IH[of "tab_done s" "r + 1", OF _ _ n] Suc.prems(2) by simp
  finally show ?case using r by (simp add: u enc_round_pair)
qed

lemma Decrypt_loop_eq:
  "Rot2_inv s \<Longrightarrow> -1 \<le> r \<Longrightarrow> nat (r + 1) = n \<Longrightarrow>
   Decrypt_loop r L R s =
     (foldl (dec_round (K s)) (L, R) (rev [0..<nat (r + 1)]), if r \<ge> 0 then tab_done s else s)"
proof (induction n arbitrary: r L R s)
  case 0
  then have "\<not> r \<ge> 0" by linarith
  moreover from this have "[0..<nat (r + 1)] = []" by simp
  ultimately show ?case by (subst Decrypt_loop.simps) simp
next
  case (Suc n)
  then have r: "0 \<le> r" by linarith
  have n: "nat (r - 1 + 1) = n" using Suc.prems by linarith
  have u: "rev [0..<nat (r + 1)] = nat r # rev [0..<nat (r - 1 + 1)]"
    using r by (simp add: nat_add_distrib)
  have "Decrypt_loop r L R s
      = Decrypt_loop (r - 1) (R XOR f_val L (K s ! nat r)) L (tab_done s)"
    using r by (subst Decrypt_loop.simps) (simp add: f_eq[OF Suc.prems(1)])
  also have "\<dots> = (foldl (dec_round (K s)) (R XOR f_val L (K s ! nat r), L) (rev [0..<nat (r - 1 + 1)]), tab_done s)"
    using Suc.IH[of "tab_done s" "r - 1", OF _ _ n] r by simp
  finally show ?case using r by (simp only: u) (simp add: dec_round_pair)
qed

lemma dec_enc_round: "dec_round Ks (enc_round Ks x r) r = x"
  by (simp add: dec_round_def enc_round_def xor.assoc)

lemma dec_enc_rounds: "foldl (dec_round Ks) (foldl (enc_round Ks) x rs) (rev rs) = x"
  by (induction rs arbitrary: x) (simp_all add: dec_enc_round)

lemma clean_enc_rounds:
  "clean (fst x) \<Longrightarrow> clean (snd x) \<Longrightarrow>
   clean (fst (foldl (enc_round Ks) x rs)) \<and> clean (snd (foldl (enc_round Ks) x rs))"
  by (induction rs arbitrary: x) (simp_all add: enc_round_def)

lemma clean_dec_rounds:
  "clean (fst x) \<Longrightarrow> clean (snd x) \<Longrightarrow>
   clean (fst (foldl (dec_round Ks) x rs)) \<and> clean (snd (foldl (dec_round Ks) x rs))"
  by (induction rs arbitrary: x) (simp_all add: dec_round_def)

lemma length_key_rounds [simp]: "length (key_rounds FK_val n A B D) = 2 * n"
  by (induction n arbitrary: A B D) (simp_all add: Let_def)

lemma take_update2:
  "Out + 2 \<le> length xs \<Longrightarrow> take (Out + 2) (xs[Out := x, Suc Out := y]) = take Out xs @ [x, y]"
  by (simp add: take_Suc_conv_app_nth nth_list_update)

lemma SetKey_loop_eq:
  "Rot2_inv s \<Longrightarrow> clean a \<Longrightarrow> clean b \<Longrightarrow> clean d \<Longrightarrow> 1 \<le> i \<Longrightarrow> nat (9 - i) = n \<Longrightarrow>
   Out + 2 * n = length (K s) \<Longrightarrow>
   SetKey_loop i Out (object_bytes 8 a) (object_bytes 8 b) (object_bytes 8 d) [q0, q1, 0, 0] s =
     (if i \<le> 8 then tab_done s else s)\<lparr>K := take Out (K s) @ key_rounds FK_val n a b d\<rparr>"
proof (induction n arbitrary: i Out a b d q0 q1 s)
  case 0
  then have "\<not> i \<le> 8" by linarith
  then show ?case using "0.prems"(7) by (subst SetKey_loop.simps) simp
next
  case (Suc n)
  then have i: "i \<le> 8" by linarith
  have n: "nat (9 - (i + 1)) = n" using Suc.prems by linarith
  define nb where "nb = FK_val a (b XOR d)"
  have cnb: "clean nb" by (simp add: nb_def)
  define s' where "s' = (tab_done s)\<lparr>K := (K s)[Out := pack2 (byte0 nb) (byte1 nb),
                                               Suc Out := pack2 (byte2 nb) (byte3 nb)]\<rparr>"
  have inv': "Rot2_inv s'" by (simp add: s'_def)
  have len': "Out + 2 + 2 * n = length (K s')" using Suc.prems(7) by (simp add: s'_def)
  have step: "SetKey_loop i Out (object_bytes 8 a) (object_bytes 8 b) (object_bytes 8 d) [q0, q1, 0, 0] s
      = SetKey_loop (i + 1) (Out + 2) (object_bytes 8 b) (object_bytes 8 nb) (object_bytes 8 a)
          [byte2 nb, byte3 nb, 0, 0] s'"
    using i
    apply (subst SetKey_loop.simps)
    apply (simp add: object_value_clean Suc.prems(2,3,4) FK_eq[OF Suc.prems(1)] Let_def
         flip: nb_def)
    apply (simp add: object_bytes_8 ov_int s'_def)
    done
  have "SetKey_loop (i + 1) (Out + 2) (object_bytes 8 b) (object_bytes 8 nb) (object_bytes 8 a)
          [byte2 nb, byte3 nb, 0, 0] s'
     = (if i + 1 \<le> 8 then tab_done s' else s')\<lparr>K := take (Out + 2) (K s') @ key_rounds FK_val n b nb a\<rparr>"
    by (rule Suc.IH[OF inv' Suc.prems(3) cnb Suc.prems(2) _ n len']) (use Suc.prems(5) in simp)
  also have "\<dots> = (tab_done s)\<lparr>K := take Out (K s) @ key_rounds FK_val (Suc n) a b d\<rparr>"
    using Suc.prems(7) take_update2[of Out "K s"]
    by (simp add: s'_def Let_def tab_done_def flip: nb_def)
  finally show ?case using i step by simp
qed

lemma enc_round_lambda: "(\<lambda>(L, R) r. (R, L XOR f_val R (Ks ! r))) = enc_round Ks"
  by (simp add: fun_eq_iff enc_round_def)

lemma dec_round_lambda: "(\<lambda>(L, R) r. (R XOR f_val L (Ks ! r), L)) = dec_round Ks"
  by (simp add: fun_eq_iff dec_round_def)

lemma SetKey_eq:
  assumes ok: "globals_ok s" and len: "8 \<le> length KP"
  shows "SetKey KP s = Some (SetKey_spec FK_val KP (tab_done s))"
proof -
  define a where "a = pack4 (KP ! 0) (KP ! 1) (KP ! 2) (KP ! 3)"
  define b where "b = pack4 (KP ! 4) (KP ! 5) (KP ! 6) (KP ! 7)"
  define Ks where "Ks = key_rounds FK_val 8 a b 0"
  have A: "(object_bytes 8 (0 :: HalfWord))[0 := KP ! 0, 1 := KP ! 1, 2 := KP ! 2, 3 := KP ! 3]
        = object_bytes 8 a"
    by (simp add: a_def object_bytes_clean object_bytes_0 replicate8)
  have B: "(object_bytes 8 (0 :: HalfWord))[0 := KP ! 4, 1 := KP ! 5, 2 := KP ! 6, 3 := KP ! 7]
        = object_bytes 8 b"
    by (simp add: b_def object_bytes_clean object_bytes_0 replicate8)
  have Q: "object_bytes 4 (0 :: QuarterWord) = [0, 0, 0, 0]"
    by (simp add: object_bytes_0 replicate4)
  have loop: "SetKey_loop 1 0 (object_bytes 8 a) (object_bytes 8 b) (object_bytes 8 (0::HalfWord)) [0, 0, 0, 0] s
      = (tab_done s)\<lparr>K := Ks\<rparr>"
    using SetKey_loop_eq[of s a b 0 1 8 0 0 0] ok
    by (simp add: globals_ok_def a_def b_def Ks_def)
  have lk: "length Ks = 16" by (simp add: Ks_def)
  have d: "drop 8 Ks ! 0 = Ks ! 8" "drop 8 Ks ! 1 = Ks ! 9"
          "drop 10 Ks ! 0 = Ks ! 10" "drop 10 Ks ! 1 = Ks ! 11"
          "drop 12 Ks ! 0 = Ks ! 12" "drop 12 Ks ! 1 = Ks ! 13"
          "drop 14 Ks ! 0 = Ks ! 14" "drop 14 Ks ! 1 = Ks ! 15"
    using lk by simp_all
  have m: "MakeH2 (drop 8 Ks) = Some (whitening (Ks ! 8) (Ks ! 9))"
          "MakeH2 (drop 10 Ks) = Some (whitening (Ks ! 10) (Ks ! 11))"
          "MakeH2 (drop 12 Ks) = Some (whitening (Ks ! 12) (Ks ! 13))"
          "MakeH2 (drop 14 Ks) = Some (whitening (Ks ! 14) (Ks ! 15))"
    using lk by (simp_all add: MakeH2_eq whitening_def d)
  have "SetKey KP s = Some ((tab_done s)\<lparr>K := Ks,
           K89 := whitening (Ks ! 8) (Ks ! 9),
           K1011 := whitening (Ks ! 10) (Ks ! 11),
           K1213 := whitening (Ks ! 12) (Ks ! 13),
           K1415 := whitening (Ks ! 14) (Ks ! 15)\<rparr>)"
    unfolding SetKey_def Let_def A B Q loop using len by (simp add: m)
  then show ?thesis
    by (simp add: SetKey_spec_def Let_def a_def b_def Ks_def)
qed

lemma SetKey_None: "length KP < 8 \<Longrightarrow> SetKey KP s = None"
  by (simp add: SetKey_def)

lemma Encrypt_eq:
  assumes "Rot2_inv s"
  shows "Encrypt Plain s = do {
     L \<leftarrow> MakeH1 Plain;
     R \<leftarrow> MakeH1 (drop 4 Plain);
     let (c0, c1) = Encrypt_spec f_val s L R;
     Some (DissH1 c0 @ DissH1 c1, tab_done s)
   }"
  unfolding Encrypt_def Encrypt_spec_def enc_round_lambda
  by (cases "MakeH1 Plain"; cases "MakeH1 (drop 4 Plain)")
     (simp_all add: Encrypt_loop_eq[OF assms, of 0 8] Let_def case_prod_beta)

lemma Decrypt_eq:
  assumes "Rot2_inv s"
  shows "Decrypt Cipher s = do {
     R \<leftarrow> MakeH1 Cipher;
     L \<leftarrow> MakeH1 (drop 4 Cipher);
     let (p0, p1) = Decrypt_spec f_val s R L;
     Some (DissH1 p0 @ DissH1 p1, tab_done s)
   }"
  unfolding Decrypt_def Decrypt_spec_def dec_round_lambda
  by (cases "MakeH1 Cipher"; cases "MakeH1 (drop 4 Cipher)")
     (simp_all add: Decrypt_loop_eq[OF assms, of 7 8] Let_def case_prod_beta)

lemma xor_cancel_r: "(a XOR b) XOR b = (a::HalfWord)"
  by (simp add: xor.assoc)

lemma Decrypt_Encrypt_spec:
  assumes "schedule s' = schedule s"
  shows "Decrypt_spec f_val s' (fst (Encrypt_spec f_val s L R)) (snd (Encrypt_spec f_val s L R)) = (L, R)"
proof -
  have k: "K s' = K s" "K89 s' = K89 s" "K1011 s' = K1011 s" "K1213 s' = K1213 s" "K1415 s' = K1415 s"
    using assms by (simp_all add: schedule_def)
  define L1 where "L1 = L XOR K89 s"
  define R1 where "R1 = (R XOR K1011 s) XOR L1"
  define X where "X = foldl (enc_round (K s)) (L1, R1) [0..<8]"
  have E: "Encrypt_spec f_val s L R = (snd X XOR K1213 s, (fst X XOR snd X) XOR K1415 s)"
    by (simp add: Encrypt_spec_def enc_round_lambda Let_def case_prod_beta X_def L1_def R1_def)
  have bk: "foldl (dec_round (K s)) X (rev [0..<8]) = (L1, R1)"
    using dec_enc_rounds[of "K s" "(L1, R1)" "[0..<8]"] by (simp add: X_def)
  have "Decrypt_spec f_val s' (snd X XOR K1213 s) ((fst X XOR snd X) XOR K1415 s)
      = ((L1 XOR K89 s), (R1 XOR L1) XOR K1011 s)"
    by (simp add: Decrypt_spec_def dec_round_lambda Let_def k xor_cancel_r bk)
  also have "\<dots> = (L, R)"
    by (simp add: L1_def R1_def xor_cancel_r)
  finally show ?thesis by (simp add: E)
qed

lemma clean_Encrypt_spec:
  assumes "clean L" "clean R" "clean (K89 s)" "clean (K1011 s)" "clean (K1213 s)" "clean (K1415 s)"
  shows "clean (fst (Encrypt_spec f_val s L R)) \<and> clean (snd (Encrypt_spec f_val s L R))"
proof -
  define X where "X = foldl (enc_round (K s)) (L XOR K89 s, (R XOR K1011 s) XOR (L XOR K89 s)) [0..<8]"
  have c: "clean (fst X) \<and> clean (snd X)"
    unfolding X_def by (rule clean_enc_rounds) (simp_all add: assms)
  have E: "Encrypt_spec f_val s L R = (snd X XOR K1213 s, (fst X XOR snd X) XOR K1415 s)"
    by (simp add: Encrypt_spec_def enc_round_lambda Let_def case_prod_beta X_def)
  show ?thesis using c assms by (simp add: E)
qed

lemma clean_whitening [simp]: "clean (whitening q0 q1)"
  by (simp add: whitening_def)

lemma SetKey_spec_fields:
  "clean (K89 (SetKey_spec FK_val KP s))" "clean (K1011 (SetKey_spec FK_val KP s))"
  "clean (K1213 (SetKey_spec FK_val KP s))" "clean (K1415 (SetKey_spec FK_val KP s))"
  "length (K (SetKey_spec FK_val KP s)) = 16"
  "Rot2_inv (SetKey_spec FK_val KP s) = Rot2_inv s"
  by (simp_all add: SetKey_spec_def Let_def Rot2_inv_iff)

lemma schedule_tab_done [simp]: "schedule (tab_done s) = schedule s"
  by (simp add: schedule_def)

lemma list8:
  assumes "length p = 8"
  shows "p = [p ! 0, p ! 1, p ! 2, p ! 3, p ! 4, p ! 5, p ! 6, p ! 7]"
  using assms by (intro nth_equalityI) (auto simp: nth_Cons' less_Suc_eq numeral_eq_Suc)

lemma roundtrip_aux:
  assumes inv: "Rot2_inv s" and ks: "clean (K89 s)" "clean (K1011 s)" "clean (K1213 s)" "clean (K1415 s)"
    and p: "length p = 8"
  shows "\<exists>c. Encrypt p s = Some (c, tab_done s) \<and> length c = 8 \<and> Decrypt c (tab_done s) = Some (p, tab_done s)"
proof -
  define L where "L = pack4 (p ! 0) (p ! 1) (p ! 2) (p ! 3)"
  define R where "R = pack4 (p ! 4) (p ! 5) (p ! 6) (p ! 7)"
  define c0 where "c0 = fst (Encrypt_spec f_val s L R)"
  define c1 where "c1 = snd (Encrypt_spec f_val s L R)"
  have mk: "MakeH1 p = Some L" "MakeH1 (drop 4 p) = Some R"
    using p by (simp_all add: MakeH1_eq L_def R_def)
  have enc: "Encrypt p s = Some (DissH1 c0 @ DissH1 c1, tab_done s)"
    by (simp add: Encrypt_eq[OF inv] mk c0_def c1_def case_prod_beta)
  have cl: "clean c0" "clean c1"
    using clean_Encrypt_spec[of L R s] ks by (simp_all add: c0_def c1_def L_def R_def)
  have mk': "MakeH1 (DissH1 c0 @ DissH1 c1) = Some c0" "MakeH1 (drop 4 (DissH1 c0 @ DissH1 c1)) = Some c1"
    using cl MakeH1_DissH1[of c1]
    by (simp_all add: DissH1_eq MakeH1_eq pack4_bytes clean_def)
  have dspec: "Decrypt_spec f_val (tab_done s) c0 c1 = (L, R)"
    unfolding c0_def c1_def by (rule Decrypt_Encrypt_spec) simp
  have out: "DissH1 L @ DissH1 R = p"
    using list8[OF p] by (simp add: L_def R_def DissH1_pack4)
  have dec: "Decrypt (DissH1 c0 @ DissH1 c1) (tab_done s) = Some (p, tab_done s)"
    by (simp only: Decrypt_eq[OF Rot2_inv_tab_done] mk') (simp add: dspec out)
  show ?thesis using enc dec by (simp add: DissH1_eq)
qed

lemma globals_ok_initial: "globals_ok initial_globals"
  by (simp add: globals_ok_def Rot2_inv_iff initial_globals_def)

lemma f_val_fun: "(\<lambda>A B. fst (f A B (tab_done s))) = f_val"
  by (simp add: fun_eq_iff f_eq)

lemma FK_val_fun: "(\<lambda>A B. fst (FK A B (tab_done s))) = FK_val"
  by (simp add: fun_eq_iff FK_eq)

lemma unat_rot2w: "unat (rot2w v) = rot2_direct (unat v)"
proof -
  have m: "(0xFF::nat) = mask 8" by (simp add: mask_eq_exp_minus_1)
  show ?thesis
    unfolding rot2w_def rot2_direct_def m
    by (rule bit_eqI) (auto simp: bit_simps dest: bit_imp_le_length)
qed

lemma rot2_table_direct: "rot2_table = map (\<lambda>i. of_nat (rot2_direct i)) [0..<256]"
proof -
  have "rot2w (of_nat i) = of_nat (rot2_direct i)" if "i < 256" for i
  proof -
    have "unat (of_nat i :: ByteType) = i" using that by (simp add: unat_of_nat)
    then have "rot2_direct i = unat (rot2w (of_nat i))" by (simp add: unat_rot2w)
    then show ?thesis by simp
  qed
  then show ?thesis by (simp add: rot2_table_def)
qed

lemma pack4_bytes_to_halfword: "pack4 b0 b1 b2 b3 = bytes_to_halfword b3 b2 b1 b0"
  by (simp add: pack4_def bytes_to_halfword_def ac_simps)

lemma S0_direct_word: "(of_nat (S0_direct (unat x1) (unat x2)) :: ByteType) = rot2w (x1 + x2)"
proof -
  have "S0_direct (unat x1) (unat x2) = unat (rot2w (x1 + x2))"
    by (simp add: S0_direct_def unat_rot2w unat_word_ariths)
  then show ?thesis by simp
qed

lemma S1_direct_word: "(of_nat (S1_direct (unat x1) (unat x2)) :: ByteType) = rot2w (x1 + x2 + 1)"
proof -
  have "S1_direct (unat x1) (unat x2) = unat (rot2w (x1 + x2 + 1))"
    by (simp add: S1_direct_def unat_rot2w unat_word_ariths mod_simps)
  then show ?thesis by simp
qed

lemma f_bytes_eq:
  "f_bytes a0 a1 a2 a3 b0 b1 =
     (let t1 = a1 XOR b0 XOR a0;
          t2 = a2 XOR b1 XOR a3;
          t1' = rot2w (t1 + t2 + 1);
          t2' = rot2w (t2 + t1')
      in [rot2w (a0 + t1'), t1', t2', rot2w (a3 + t2' + 1)])"
  by (simp add: f_bytes_def Let_def S0_direct_word S1_direct_word)

lemma schedule_Encrypt_loop:
  "nat (8 - r) = n \<Longrightarrow> schedule (snd (Encrypt_loop r L R s)) = schedule s"
proof (induction n arbitrary: r L R s)
  case 0
  then have "\<not> r < 8" by linarith
  then show ?case by (subst Encrypt_loop.simps) simp
next
  case (Suc n)
  then have r: "r < 8" by linarith
  have n: "nat (8 - (r + 1)) = n" using Suc.prems by linarith
  have k: "K (snd (f R (K s ! nat r) s)) = K s"
    using schedule_f[of R "K s ! nat r" s] by (simp add: schedule_def)
  show ?case
    using r Suc.IH[OF n, of "R" "L XOR fst (f R (K s ! nat r) s)" "snd (f R (K s ! nat r) s)"]
    by (subst Encrypt_loop.simps) (simp add: case_prod_beta schedule_f)
qed

lemma schedule_Decrypt_loop:
  "nat (r + 1) = n \<Longrightarrow> schedule (snd (Decrypt_loop r L R s)) = schedule s"
proof (induction n arbitrary: r L R s)
  case 0
  then have "\<not> 0 \<le> r" by linarith
  then show ?case by (subst Decrypt_loop.simps) simp
next
  case (Suc n)
  then have r: "0 \<le> r" by linarith
  have n: "nat (r - 1 + 1) = n" using Suc.prems by linarith
  show ?case
    using r Suc.IH[OF n, of "R XOR fst (f L (K s ! nat r) s)" "L" "snd (f L (K s ! nat r) s)"]
    by (subst Decrypt_loop.simps) (simp add: case_prod_beta schedule_f)
qed

lemma Encrypt_total:
  assumes "8 \<le> length Plain"
  shows "\<exists>c s'. Encrypt Plain s = Some (c, s') \<and> schedule s' = schedule s"
proof -
  obtain L R where m: "MakeH1 Plain = Some L" "MakeH1 (drop 4 Plain) = Some R"
    using assms by (simp add: MakeH1_eq)
  show ?thesis
    by (simp add: Encrypt_def m case_prod_beta Let_def schedule_Encrypt_loop)
qed

lemma Decrypt_total:
  assumes "8 \<le> length Cipher"
  shows "\<exists>p s'. Decrypt Cipher s = Some (p, s') \<and> schedule s' = schedule s"
proof -
  obtain R L where m: "MakeH1 Cipher = Some R" "MakeH1 (drop 4 Cipher) = Some L"
    using assms by (simp add: MakeH1_eq)
  show ?thesis
    by (simp add: Decrypt_def m case_prod_beta Let_def schedule_Decrypt_loop)
qed

lemma clean_f: "clean (fst (f A B t))"
  using f_pack4[of A B t] by auto

lemma clean_FK: "clean (fst (FK A B t))"
  using FK_pack4[of A B t] by auto

lemma clean_MakeH1: "MakeH1 B = Some h \<Longrightarrow> clean h"
  by (cases "length B < 4") (auto simp: MakeH1_None MakeH1_eq)

lemma Encrypt_loop_rel_clean:
  assumes "Encrypt_loop_rel y z" "clean (fst (snd z))" "clean (fst (snd (snd z)))"
  shows "clean (fst (snd y)) \<and> clean (fst (snd (snd y)))"
  using assms
proof (cases rule: Encrypt_loop_rel.cases)
  case (1 r L R s x xa y' xb xc xd)
  then have "xa = fst (f R (K s ! nat r) s)" by (metis fst_conv)
  then show ?thesis using 1 assms(2,3) by (simp add: clean_f)
qed

lemma Encrypt_loop_reach_clean:
  assumes "rtranclp Encrypt_loop_rel x x0" "clean (fst (snd x0))" "clean (fst (snd (snd x0)))"
  shows "clean (fst (snd x)) \<and> clean (fst (snd (snd x)))"
  using assms
  by (induction rule: converse_rtranclp_induct) (auto dest: Encrypt_loop_rel_clean)

lemma Decrypt_loop_rel_clean:
  assumes "Decrypt_loop_rel y z" "clean (fst (snd z))" "clean (fst (snd (snd z)))"
  shows "clean (fst (snd y)) \<and> clean (fst (snd (snd y)))"
  using assms
proof (cases rule: Decrypt_loop_rel.cases)
  case (1 r L R s x xa y' xb xc xd)
  then have "xa = fst (f L (K s ! nat r) s)" by (metis fst_conv)
  then show ?thesis using 1 assms(2,3) by (simp add: clean_f)
qed

lemma Decrypt_loop_reach_clean:
  assumes "rtranclp Decrypt_loop_rel x x0" "clean (fst (snd x0))" "clean (fst (snd (snd x0)))"
  shows "clean (fst (snd x)) \<and> clean (fst (snd (snd x)))"
  using assms
  by (induction rule: converse_rtranclp_induct) (auto dest: Decrypt_loop_rel_clean)

lemma clean_Encrypt_loop:
  "nat (8 - r) = n \<Longrightarrow> clean L \<Longrightarrow> clean R \<Longrightarrow>
   clean (fst (fst (Encrypt_loop r L R s))) \<and> clean (snd (fst (Encrypt_loop r L R s)))"
proof (induction n arbitrary: r L R s)
  case 0
  then have "\<not> r < 8" by linarith
  then show ?case using "0.prems" by (subst Encrypt_loop.simps, subst (2) Encrypt_loop.simps) simp
next
  case (Suc n)
  then have r: "r < 8" by linarith
  have n: "nat (8 - (r + 1)) = n" using Suc.prems by linarith
  have e: "Encrypt_loop r L R s
      = Encrypt_loop (r + 1) R (L XOR fst (f R (K s ! nat r) s)) (snd (f R (K s ! nat r) s))"
    using r by (subst Encrypt_loop.simps) (simp add: case_prod_beta)
  show ?case unfolding e
    by (rule Suc.IH[OF n]) (simp_all add: Suc.prems clean_f)
qed

lemma clean_Decrypt_loop:
  "nat (r + 1) = n \<Longrightarrow> clean L \<Longrightarrow> clean R \<Longrightarrow>
   clean (fst (fst (Decrypt_loop r L R s))) \<and> clean (snd (fst (Decrypt_loop r L R s)))"
proof (induction n arbitrary: r L R s)
  case 0
  then have "\<not> 0 \<le> r" by linarith
  then show ?case using "0.prems" by (subst Decrypt_loop.simps, subst (2) Decrypt_loop.simps) simp
next
  case (Suc n)
  then have r: "0 \<le> r" by linarith
  have n: "nat (r - 1 + 1) = n" using Suc.prems by linarith
  have e: "Decrypt_loop r L R s
      = Decrypt_loop (r - 1) (R XOR fst (f L (K s ! nat r) s)) L (snd (f L (K s ! nat r) s))"
    using r by (subst Decrypt_loop.simps) (simp add: case_prod_beta)
  show ?case unfolding e
    by (rule Suc.IH[OF n]) (simp_all add: Suc.prems clean_f)
qed

lemma key_rounds_lt:
  "i < length (key_rounds FKv n A B D) \<Longrightarrow> key_rounds FKv n A B D ! i < 2 ^ 16"
proof (induction n arbitrary: A B D i)
  case 0
  then show ?case by simp
next
  case (Suc n)
  show ?case
  proof (cases i)
    case 0
    then show ?thesis using pack2_lt by (simp add: Let_def)
  next
    case i: (Suc j)
    show ?thesis
    proof (cases j)
      case 0
      then show ?thesis using i pack2_lt by (simp add: Let_def)
    next
      case (Suc k)
      then show ?thesis using i Suc.prems Suc.IH[of k] by (simp add: Let_def)
    qed
  qed
qed

section \<open>The claims\<close>

text \<open>
  Claim C1. For every 8-byte master key \<open>key\<close> and every 8-byte block \<open>p\<close>,
  in every well-formed state: \<open>SetKey\<close> succeeds, \<open>Encrypt\<close> of \<open>p\<close> under the
  schedule it stored succeeds, and \<open>Decrypt\<close> of the ciphertext under the same schedule
  returns \<open>p\<close>.
\<close>

theorem Decrypt_Encrypt_roundtrip:
  assumes "globals_ok s" and "length key = 8" and "length p = 8"
  shows "do { s1 \<leftarrow> SetKey key s;
              (c, s2) \<leftarrow> Encrypt p s1;
              (p', s3) \<leftarrow> Decrypt c s2;
              Some p' } = Some p"
proof -
  define s1 where "s1 = SetKey_spec FK_val key (tab_done s)"
  have sk: "SetKey key s = Some s1"
    using assms by (simp add: SetKey_eq s1_def)
  have inv: "Rot2_inv s1" by (simp add: s1_def SetKey_spec_fields)
  obtain c where c: "Encrypt p s1 = Some (c, tab_done s1)"
      "Decrypt c (tab_done s1) = Some (p, tab_done s1)"
    using roundtrip_aux[OF inv _ _ _ _ assms(3)] by (auto simp: s1_def SetKey_spec_fields)
  show ?thesis by (simp add: sk c)
qed

theorem Decrypt_Encrypt_roundtrip_witness:
  "globals_ok initial_globals
   \<and> length [0x01, 0x23, 0x45, 0x67, 0x89, 0xab, 0xcd, 0xef :: ByteType] = 8
   \<and> length [0, 0, 0, 0, 0, 0, 0, 0 :: ByteType] = 8
   \<and> do { s1 \<leftarrow> SetKey [0x01, 0x23, 0x45, 0x67, 0x89, 0xab, 0xcd, 0xef] initial_globals;
            (c, s2) \<leftarrow> Encrypt [0, 0, 0, 0, 0, 0, 0, 0] s1;
            (p', s3) \<leftarrow> Decrypt c s2;
            Some p' } = Some [0, 0, 0, 0, 0, 0, 0, 0]"
  using Decrypt_Encrypt_roundtrip [of initial_globals
      "[0x01, 0x23, 0x45, 0x67, 0x89, 0xab, 0xcd, 0xef]" "[0, 0, 0, 0, 0, 0, 0, 0]"]
  by (simp add: globals_ok_def Rot2_inv_def initial_globals_def)

text \<open>
  Claim C2. The initialisation loop of \<open>Rot2\<close>, run on a table of 256 entries, builds
  the table of the direct formula. In every state that satisfies the invariant of the
  statics of \<open>Rot2\<close> (in particular at program start, before the table exists), a call
  of \<open>Rot2\<close> leaves the table equal to the direct formula at each of its 256 indices
  and returns the direct formula at its argument; \<open>S0\<close> and \<open>S1\<close> return
  \<open>rot2\<close> of the sum, respectively of the sum plus one, modulo 256. The invariant
  holds again afterwards.
\<close>

theorem Rot2_table_is_direct_formula:
  assumes "Rot2_inv s"
  shows "(length tab = 256 \<longrightarrow>
            Rot2_loop 0 0 0 tab = map (\<lambda>i. of_nat (rot2_direct i)) [0..<256])
       \<and> Rot2_RetVal (snd (Rot2 v s)) = map (\<lambda>i. of_nat (rot2_direct i)) [0..<256]
       \<and> unat (fst (Rot2 v s)) = rot2_direct (unat v)
       \<and> unat (fst (S0 x1 x2 s)) = S0_direct (unat x1) (unat x2)
       \<and> unat (fst (S1 x1 x2 s)) = S1_direct (unat x1) (unat x2)
       \<and> Rot2_inv (snd (Rot2 v s)) \<and> Rot2_inv (snd (S0 x1 x2 s)) \<and> Rot2_inv (snd (S1 x1 x2 s))"
proof -
  have a: "unat (x1 + x2) = (unat x1 + unat x2) mod 256"
    by (simp add: unat_word_ariths)
  have b: "unat (x1 + x2 + 1) = (unat x1 + unat x2 + 1) mod 256"
    by (simp add: unat_word_ariths mod_simps)
  show ?thesis
    using assms
    by (simp add: Rot2_eq S0_eq S1_eq unat_rot2w a b S0_direct_def S1_direct_def
          Rot2_loop_table flip: rot2_table_direct)
       (simp add: tab_done_def)
qed

theorem Rot2_table_is_direct_formula_witness:
  "Rot2_inv initial_globals
   \<and> length (replicate 256 (0 :: ByteType)) = 256
   \<and> Rot2_loop 0 0 0 (replicate 256 0) = map (\<lambda>i. of_nat (rot2_direct i)) [0..<256]
   \<and> Rot2_RetVal (snd (Rot2 3 initial_globals)) = map (\<lambda>i. of_nat (rot2_direct i)) [0..<256]
   \<and> unat (fst (Rot2 3 initial_globals)) = rot2_direct (unat (3 :: ByteType))
   \<and> unat (fst (S0 200 100 initial_globals)) = S0_direct (unat (200 :: ByteType)) (unat (100 :: ByteType))
   \<and> unat (fst (S1 200 100 initial_globals)) = S1_direct (unat (200 :: ByteType)) (unat (100 :: ByteType))"
  using Rot2_table_is_direct_formula [of initial_globals "replicate 256 0" 3 200 100]
    Rot2_inv_initial
  by simp

text \<open>
  Claim C3, as stated, fails: on the bytes 1, 0, 0, 0 \<open>MakeH1\<close> returns 1 (byte 0 is the
  least significant byte of the union), not \<open>1 << 24\<close>.
\<close>

theorem MakeH1_msb_first_counterexample:
  "MakeH1 [1, 0, 0, 0] = Some 1 \<and> MakeH1 [1, 0, 0, 0] \<noteq> Some (bytes_to_halfword 1 0 0 0)"
  by (simp add: MakeH1_eq pack4_def bytes_to_halfword_def)

text \<open>
  Claim C3, amended. On the bytes \<open>b0, b1, b2, b3\<close> (whatever follows them in the array)
  \<open>MakeH1\<close> returns \<open>b0 | (b1 << 8) | (b2 << 16) | (b3 << 24)\<close>, that is, the
  specification's packing of the bytes in reverse order, and every bit above bit 31 of the
  result is zero.
\<close>

theorem MakeH1_lsb_first:
  "MakeH1 (b0 # b1 # b2 # b3 # rest) = Some (bytes_to_halfword b3 b2 b1 b0)
   \<and> bytes_to_halfword b3 b2 b1 b0 < 2 ^ 32"
  using pack4_lt[of b0 b1 b2 b3]
  by (simp add: MakeH1_eq flip: pack4_bytes_to_halfword)

text \<open>
  Claim C4. For every 8-byte master key, in every well-formed state, \<open>SetKey\<close> succeeds
  and leaves the key schedule of the recurrence: with \<open>A\<close> of the key bytes 0 to 3,
  \<open>B\<close> of the key bytes 4 to 7 and \<open>D = 0\<close>, eight iterations of
  \<open>NewB = FK(A, B \<oplus> D); D \<leftarrow> A; A \<leftarrow> B; B \<leftarrow> NewB\<close>, each emitting the quarterwords
  of the bytes \<open>(B[0], B[1])\<close> and \<open>(B[2], B[3])\<close> in this order into \<open>K[0..15]\<close>, and
  then \<open>K89\<close>, \<open>K1011\<close>, \<open>K1213\<close>, \<open>K1415\<close> from the pairs \<open>(K[8], K[9])\<close>,
  \<open>(K[10], K[11])\<close>, \<open>(K[12], K[13])\<close>, \<open>(K[14], K[15])\<close>. Here \<open>FK\<close> is the
  value that the function \<open>FK\<close> returns, the halfword of four bytes is the one that
  \<open>MakeH1\<close> returns, the quarterword of two bytes is the one assembled in the union
  \<open>Q\<close>, and the halfword of two quarterwords is the one that \<open>MakeH2\<close> returns.
\<close>

theorem SetKey_is_recurrence:
  assumes "globals_ok s" and "length KP = 8"
  shows "SetKey KP s = Some (SetKey_spec (\<lambda>A B. fst (FK A B (tab_done s))) KP (tab_done s))
       \<and> (\<forall>a b c d. MakeH1 [a, b, c, d] = Some (pack4 a b c d))
       \<and> (\<forall>a b. SetKey_Q a b = pack2 a b)
       \<and> (\<forall>q0 q1. MakeH2 [q0, q1] = Some (whitening q0 q1))"
proof -
  have "SetKey_Q a b = pack2 a b" for a b
    by (simp add: SetKey_Q_def Let_def object_bytes_0 replicate4 ov_int)
  then show ?thesis
    using assms by (simp add: SetKey_eq FK_val_fun MakeH1_eq MakeH2_eq whitening_def)
qed

theorem SetKey_is_recurrence_witness:
  "globals_ok initial_globals
   \<and> length [0x01, 0x23, 0x45, 0x67, 0x89, 0xab, 0xcd, 0xef :: ByteType] = 8
   \<and> SetKey [0x01, 0x23, 0x45, 0x67, 0x89, 0xab, 0xcd, 0xef] initial_globals
       = Some (SetKey_spec (\<lambda>A B. fst (FK A B (tab_done initial_globals)))
                 [0x01, 0x23, 0x45, 0x67, 0x89, 0xab, 0xcd, 0xef] (tab_done initial_globals))"
  using SetKey_is_recurrence [of initial_globals "[0x01, 0x23, 0x45, 0x67, 0x89, 0xab, 0xcd, 0xef]"]
    globals_ok_initial
  by simp

text \<open>
  Claim C5. In every state that satisfies the invariant of the table, \<open>Encrypt\<close> on a
  block of at least 8 bytes computes what the specification describes: \<open>L\<close> and \<open>R\<close>
  from the bytes 0 to 3 and 4 to 7, the pre-whitening, the eight rounds
  \<open>NewR = L \<oplus> f(R, K[r])\<close> for \<open>r = 0, \<dots>, 7\<close> in this order, the post-whitening, and the
  output of the bytes of \<open>R\<close> followed by the bytes of \<open>L\<close>. (On a shorter block both
  sides are undefined.)
\<close>

theorem Encrypt_is_specified_network:
  assumes "Rot2_inv s"
  shows "Encrypt Plain s = do {
           L \<leftarrow> MakeH1 Plain;
           R \<leftarrow> MakeH1 (drop 4 Plain);
           let (R', L') = Encrypt_spec (\<lambda>A B. fst (f A B (tab_done s))) s L R;
           Some (DissH1 R' @ DissH1 L', tab_done s)
         }"
  by (simp add: Encrypt_eq[OF assms] f_val_fun)

theorem Encrypt_is_specified_network_witness:
  "Rot2_inv initial_globals
   \<and> Encrypt [0, 0, 0, 0, 0, 0, 0, 0] initial_globals = do {
           L \<leftarrow> MakeH1 [0, 0, 0, 0, 0, 0, 0, 0];
           R \<leftarrow> MakeH1 (drop 4 [0, 0, 0, 0, 0, 0, 0, 0]);
           let (R', L') = Encrypt_spec (\<lambda>A B. fst (f A B (tab_done initial_globals))) initial_globals L R;
           Some (DissH1 R' @ DissH1 L', tab_done initial_globals)
         }"
  using Encrypt_is_specified_network [of initial_globals "[0, 0, 0, 0, 0, 0, 0, 0]"] Rot2_inv_initial
  by simp

text \<open>
  Claim C6, as stated, fails: with byte 0 the most significant byte, the halfword
  \<open>0x01000000\<close> has the bytes 1, 0, 0, 0 and the claim's formula gives \<open>0x24082084\<close>
  for the quarterword 0, while \<open>f\<close> returns \<open>0x98240820\<close>.
\<close>

theorem f_msb_first_counterexample:
  "fst (f 0x01000000 0 initial_globals) = 0x98240820
   \<and> f_msb_first 0x01000000 0 = 0x24082084
   \<and> fst (f 0x01000000 0 initial_globals) \<noteq> f_msb_first 0x01000000 0"
  by (simp add: f_eq[OF Rot2_inv_initial] f_val_def byte0_def byte1_def byte2_def byte3_def
       rot2w_def pack4_def f_msb_first_def f_bytes_eq bytes_to_halfword_def)

text \<open>
  Claim C6, amended. Let \<open>a0, a1, a2, a3\<close> be the bytes of \<open>A\<close> in the order in which
  \<open>DissH1\<close> writes them (the union's memory order: byte 0 is the least significant) and
  \<open>b0, b1\<close> those of \<open>B\<close> in the order of \<open>DissQ1\<close>. Then \<open>f(A, B)\<close> is the
  halfword that \<open>MakeH1\<close> assembles from the bytes
  \<open>(S0(a0, t1'), t1', t2', S1(a3, t2'))\<close> of the specification's formula.
\<close>

theorem f_formula_in_memory_order:
  assumes "Rot2_inv s"
  shows "MakeH1 (f_bytes (DissH1 A ! 0) (DissH1 A ! 1) (DissH1 A ! 2) (DissH1 A ! 3)
                         (DissQ1 B ! 0) (DissQ1 B ! 1))
         = Some (fst (f A B s))"
  by (simp add: f_eq[OF assms] f_val_def f_bytes_eq DissH1_eq DissQ1_eq Let_def MakeH1_eq)

theorem f_formula_in_memory_order_witness:
  "Rot2_inv initial_globals
   \<and> MakeH1 (f_bytes (DissH1 0x01000000 ! 0) (DissH1 0x01000000 ! 1) (DissH1 0x01000000 ! 2)
                (DissH1 0x01000000 ! 3) (DissQ1 0 ! 0) (DissQ1 0 ! 1))
       = Some (fst (f 0x01000000 0 initial_globals))"
  using f_formula_in_memory_order [of initial_globals "0x01000000" 0] Rot2_inv_initial
  by simp

text \<open>
  Claim C7. For every halfword \<open>h\<close> (a value below \<open>2^32\<close>), \<open>MakeH1\<close> of the bytes
  that \<open>DissH1\<close> writes is \<open>h\<close>; for all bytes, \<open>DissH1\<close> of the halfword that
  \<open>MakeH1\<close> returns writes the same four bytes. For every quarterword \<open>q\<close> (a value
  below \<open>2^16\<close>), the quarterword that \<open>SetKey\<close> assembles from the bytes that
  \<open>DissQ1\<close> writes is \<open>q\<close>, and \<open>DissQ1\<close> of an assembled quarterword writes the
  two bytes it was assembled from.
\<close>

theorem conversions_mutually_inverse:
  "(h < 2 ^ 32 \<longrightarrow> MakeH1 (DissH1 h) = Some h)
   \<and> (\<exists>h'. MakeH1 [b0, b1, b2, b3] = Some h' \<and> DissH1 h' = [b0, b1, b2, b3])
   \<and> (q < 2 ^ 16 \<longrightarrow> SetKey_Q (DissQ1 q ! 0) (DissQ1 q ! 1) = q)
   \<and> DissQ1 (SetKey_Q c0 c1) = [c0, c1]"
proof -
  have Q: "SetKey_Q a b = pack2 a b" for a b
    by (simp add: SetKey_Q_def Let_def object_bytes_0 replicate4 ov_int)
  have 1: "h < 2 ^ 32 \<longrightarrow> MakeH1 (DissH1 h) = Some h"
    by (simp only: lt32_iff MakeH1_DissH1) simp
  have 2: "\<exists>h'. MakeH1 [b0, b1, b2, b3] = Some h' \<and> DissH1 h' = [b0, b1, b2, b3]"
    by (simp add: MakeH1_eq DissH1_pack4)
  have 3: "q < 2 ^ 16 \<longrightarrow> SetKey_Q (DissQ1 q ! 0) (DissQ1 q ! 1) = q"
    by (simp only: lt16_iff Q DissQ1_eq) (simp add: pack2_bytes)
  have 4: "DissQ1 (SetKey_Q c0 c1) = [c0, c1]"
    by (simp add: Q DissQ1_eq)
  show ?thesis using 1 2 3 4 by blast
qed

theorem conversions_mutually_inverse_witness:
  "((5 :: HalfWord) < 2 ^ 32 \<and> MakeH1 (DissH1 5) = Some 5)
   \<and> (\<exists>h'. MakeH1 [1, 2, 3, 4] = Some h' \<and> DissH1 h' = [1, 2, 3, 4])
   \<and> ((7 :: QuarterWord) < 2 ^ 16 \<and> SetKey_Q (DissQ1 7 ! 0) (DissQ1 7 ! 1) = 7)
   \<and> DissQ1 (SetKey_Q 8 9) = [8, 9]"
  using conversions_mutually_inverse [of 5 1 2 3 4 7 8 9] by simp

text \<open>
  Claim C8. Every halfword that the cipher produces is below \<open>2^32\<close> although
  \<open>HalfWord\<close> is a 64-bit type here, and every stored subkey is below \<open>2^16\<close>:
  \<^item> \<open>MakeH1\<close>, \<open>f\<close> and \<open>FK\<close> return values below \<open>2^32\<close>, for all arguments and
    in all states;
  \<^item> from a well-formed state and a key of at least 8 bytes, \<open>SetKey\<close> stores whitening
    halfwords below \<open>2^32\<close> and sixteen subkeys below \<open>2^16\<close>;
  \<^item> in \<open>Encrypt\<close>, in any state whose whitening halfwords are below \<open>2^32\<close> and for
    any halfwords \<open>L0\<close>, \<open>R0\<close> that \<open>MakeH1\<close> returned for the block: the
    pre-whitened values, the values of \<open>L\<close> and \<open>R\<close> at every iteration of the loop (the
    arguments of every call that the loop function makes, from the first to the one that
    leaves the loop), and the post-whitened values are below \<open>2^32\<close>;
  \<^item> likewise in \<open>Decrypt\<close>.
\<close>

theorem halfwords_below_2_32:
  assumes "globals_ok s" and "8 \<le> length KP"
  shows "(\<forall>B h. MakeH1 B = Some h \<longrightarrow> h < 2 ^ 32)
       \<and> (\<forall>A B t. fst (f A B t) < 2 ^ 32)
       \<and> (\<forall>A B t. fst (FK A B t) < 2 ^ 32)
       \<and> (\<exists>s1. SetKey KP s = Some s1
             \<and> K89 s1 < 2 ^ 32 \<and> K1011 s1 < 2 ^ 32 \<and> K1213 s1 < 2 ^ 32 \<and> K1415 s1 < 2 ^ 32
             \<and> (\<forall>i<16. K s1 ! i < 2 ^ 16))
       \<and> (\<forall>t B L0 R0.
             K89 t < 2 ^ 32 \<and> K1011 t < 2 ^ 32 \<and> K1213 t < 2 ^ 32 \<and> K1415 t < 2 ^ 32
             \<and> MakeH1 B = Some L0 \<and> MakeH1 (drop 4 B) = Some R0 \<longrightarrow>
             (let L1 = L0 XOR K89 t; R1 = R0 XOR K1011 t; R2 = R1 XOR L1
              in L1 < 2 ^ 32 \<and> R1 < 2 ^ 32 \<and> R2 < 2 ^ 32
               \<and> (\<forall>r L R t'. rtranclp Encrypt_loop_rel (r, L, R, t') (0, L1, R2, t)
                      \<longrightarrow> L < 2 ^ 32 \<and> R < 2 ^ 32)
               \<and> (let ((L8, R8), t8) = Encrypt_loop 0 L1 R2 t;
                       L9 = L8 XOR R8; R9 = R8 XOR K1213 t8; L10 = L9 XOR K1415 t8
                   in L8 < 2 ^ 32 \<and> R8 < 2 ^ 32 \<and> L9 < 2 ^ 32 \<and> R9 < 2 ^ 32 \<and> L10 < 2 ^ 32)))
       \<and> (\<forall>t B R0 L0.
             K89 t < 2 ^ 32 \<and> K1011 t < 2 ^ 32 \<and> K1213 t < 2 ^ 32 \<and> K1415 t < 2 ^ 32
             \<and> MakeH1 B = Some R0 \<and> MakeH1 (drop 4 B) = Some L0 \<longrightarrow>
             (let R1 = R0 XOR K1213 t; L1 = L0 XOR K1415 t; L2 = L1 XOR R1
              in R1 < 2 ^ 32 \<and> L1 < 2 ^ 32 \<and> L2 < 2 ^ 32
               \<and> (\<forall>r L R t'. rtranclp Decrypt_loop_rel (r, L, R, t') (7, L2, R1, t)
                      \<longrightarrow> L < 2 ^ 32 \<and> R < 2 ^ 32)
               \<and> (let ((L8, R8), t8) = Decrypt_loop 7 L2 R1 t;
                       R9 = R8 XOR L8; R10 = R9 XOR K1011 t8; L9 = L8 XOR K89 t8
                   in L8 < 2 ^ 32 \<and> R8 < 2 ^ 32 \<and> R9 < 2 ^ 32 \<and> R10 < 2 ^ 32 \<and> L9 < 2 ^ 32)))"
proof -
  have A: "\<forall>B h. MakeH1 B = Some h \<longrightarrow> h < 2 ^ 32"
    using clean_MakeH1 by (simp only: clean_lt) blast
  have B: "\<forall>A B t. fst (f A B t) < 2 ^ 32"
    using clean_f by (simp only: clean_lt) blast
  have C: "\<forall>A B t. fst (FK A B t) < 2 ^ 32"
    using clean_FK by (simp only: clean_lt) blast
  have D: "\<exists>s1. SetKey KP s = Some s1
             \<and> K89 s1 < 2 ^ 32 \<and> K1011 s1 < 2 ^ 32 \<and> K1213 s1 < 2 ^ 32 \<and> K1415 s1 < 2 ^ 32
             \<and> (\<forall>i<16. K s1 ! i < 2 ^ 16)"
  proof -
    define s1 where "s1 = SetKey_spec FK_val KP (tab_done s)"
    have "SetKey KP s = Some s1" using assms by (simp add: SetKey_eq s1_def)
    moreover have "K89 s1 < 2 ^ 32" "K1011 s1 < 2 ^ 32" "K1213 s1 < 2 ^ 32" "K1415 s1 < 2 ^ 32"
      using SetKey_spec_fields(1-4)[of KP "tab_done s"] by (simp_all only: clean_lt s1_def)
    moreover have "\<forall>i<16. K s1 ! i < 2 ^ 16"
      using key_rounds_lt[of _ FK_val 8] by (simp add: s1_def SetKey_spec_def Let_def)
    ultimately show ?thesis by blast
  qed
  have E: "L1 < 2 ^ 32 \<and> R1 < 2 ^ 32 \<and> R2 < 2 ^ 32
               \<and> (\<forall>r L R t'. rtranclp Encrypt_loop_rel (r, L, R, t') (0, L1, R2, t)
                      \<longrightarrow> L < 2 ^ 32 \<and> R < 2 ^ 32)
               \<and> (let ((L8, R8), t8) = Encrypt_loop 0 L1 R2 t;
                       L9 = L8 XOR R8; R9 = R8 XOR K1213 t8; L10 = L9 XOR K1415 t8
                   in L8 < 2 ^ 32 \<and> R8 < 2 ^ 32 \<and> L9 < 2 ^ 32 \<and> R9 < 2 ^ 32 \<and> L10 < 2 ^ 32)"
    if k: "K89 t < 2 ^ 32" "K1011 t < 2 ^ 32" "K1213 t < 2 ^ 32" "K1415 t < 2 ^ 32"
      and m: "MakeH1 B = Some L0" "MakeH1 (drop 4 B) = Some R0"
      and d: "L1 = L0 XOR K89 t" "R1 = R0 XOR K1011 t" "R2 = R1 XOR L1"
    for t B L0 R0 L1 R1 R2
  proof -
    have c0: "clean L0" "clean R0" using m clean_MakeH1 by blast+
    have ck: "clean (K89 t)" "clean (K1011 t)" "clean (K1213 t)" "clean (K1415 t)"
      using k by (simp_all only: clean_lt)
    have c1: "clean L1" "clean R1" "clean R2" using c0 ck by (simp_all add: d)
    have reach: "clean L \<and> clean R" if "rtranclp Encrypt_loop_rel (r, L, R, t') (0, L1, R2, t)"
      for r L R t'
      using Encrypt_loop_reach_clean[OF that] c1 by simp
    define res where "res = Encrypt_loop 0 L1 R2 t"
    have c8: "clean (fst (fst res))" "clean (snd (fst res))"
      using clean_Encrypt_loop[of 0 8 L1 R2 t] c1 by (simp_all add: res_def)
    have sch: "schedule (snd res) = schedule t"
      unfolding res_def by (rule schedule_Encrypt_loop[of 0 8]) simp
    then have ck8: "clean (K1213 (snd res))" "clean (K1415 (snd res))"
      using ck by (simp_all add: schedule_def)
    have fin: "clean (fst (fst res) XOR snd (fst res))"
        "clean (snd (fst res) XOR K1213 (snd res))"
        "clean ((fst (fst res) XOR snd (fst res)) XOR K1415 (snd res))"
      using c8 ck8 by simp_all
    show ?thesis
      using c1 reach c8 fin
      by (simp only: clean_lt Let_def case_prod_beta flip: res_def) blast
  qed
  have F: "R1 < 2 ^ 32 \<and> L1 < 2 ^ 32 \<and> L2 < 2 ^ 32
               \<and> (\<forall>r L R t'. rtranclp Decrypt_loop_rel (r, L, R, t') (7, L2, R1, t)
                      \<longrightarrow> L < 2 ^ 32 \<and> R < 2 ^ 32)
               \<and> (let ((L8, R8), t8) = Decrypt_loop 7 L2 R1 t;
                       R9 = R8 XOR L8; R10 = R9 XOR K1011 t8; L9 = L8 XOR K89 t8
                   in L8 < 2 ^ 32 \<and> R8 < 2 ^ 32 \<and> R9 < 2 ^ 32 \<and> R10 < 2 ^ 32 \<and> L9 < 2 ^ 32)"
    if k: "K89 t < 2 ^ 32" "K1011 t < 2 ^ 32" "K1213 t < 2 ^ 32" "K1415 t < 2 ^ 32"
      and m: "MakeH1 B = Some R0" "MakeH1 (drop 4 B) = Some L0"
      and d: "R1 = R0 XOR K1213 t" "L1 = L0 XOR K1415 t" "L2 = L1 XOR R1"
    for t B L0 R0 L1 R1 L2
  proof -
    have c0: "clean L0" "clean R0" using m clean_MakeH1 by blast+
    have ck: "clean (K89 t)" "clean (K1011 t)" "clean (K1213 t)" "clean (K1415 t)"
      using k by (simp_all only: clean_lt)
    have c1: "clean R1" "clean L1" "clean L2" using c0 ck by (simp_all add: d)
    have reach: "clean L \<and> clean R" if "rtranclp Decrypt_loop_rel (r, L, R, t') (7, L2, R1, t)"
      for r L R t'
      using Decrypt_loop_reach_clean[OF that] c1 by simp
    define res where "res = Decrypt_loop 7 L2 R1 t"
    have c8: "clean (fst (fst res))" "clean (snd (fst res))"
      using clean_Decrypt_loop[of 7 8 L2 R1 t] c1 by (simp_all add: res_def)
    have sch: "schedule (snd res) = schedule t"
      unfolding res_def by (rule schedule_Decrypt_loop[of 7 8]) simp
    then have ck8: "clean (K89 (snd res))" "clean (K1011 (snd res))"
      using ck by (simp_all add: schedule_def)
    have fin: "clean (snd (fst res) XOR fst (fst res))"
        "clean ((snd (fst res) XOR fst (fst res)) XOR K1011 (snd res))"
        "clean (fst (fst res) XOR K89 (snd res))"
      using c8 ck8 by simp_all
    show ?thesis
      using c1 reach c8 fin
      by (simp only: clean_lt Let_def case_prod_beta flip: res_def) blast
  qed
  show ?thesis
    unfolding Let_def
    apply (intro conjI)
         apply (rule A)
        apply (rule B)
       apply (rule C)
      apply (rule D)
     apply (intro allI impI, elim conjE)
     apply (rule E[unfolded Let_def]; (assumption | rule refl))
    apply (intro allI impI, elim conjE)
    apply (rule F[unfolded Let_def]; (assumption | rule refl))
    done
qed

theorem halfwords_below_2_32_witness:
  "globals_ok initial_globals
   \<and> 8 \<le> length [0x01, 0x23, 0x45, 0x67, 0x89, 0xab, 0xcd, 0xef :: ByteType]
   \<and> MakeH1 [1, 2, 3, 4] = Some 0x04030201 \<and> (0x04030201 :: HalfWord) < 2 ^ 32
   \<and> fst (f 5 7 initial_globals) < 2 ^ 32
   \<and> fst (FK 5 7 initial_globals) < 2 ^ 32
   \<and> (\<exists>s1. SetKey [0x01, 0x23, 0x45, 0x67, 0x89, 0xab, 0xcd, 0xef] initial_globals = Some s1
         \<and> K89 s1 < 2 ^ 32 \<and> K1011 s1 < 2 ^ 32 \<and> K1213 s1 < 2 ^ 32 \<and> K1415 s1 < 2 ^ 32
         \<and> (3 :: nat) < 16 \<and> K s1 ! 3 < 2 ^ 16)
   \<and> K89 initial_globals < 2 ^ 32 \<and> K1011 initial_globals < 2 ^ 32
   \<and> K1213 initial_globals < 2 ^ 32 \<and> K1415 initial_globals < 2 ^ 32
   \<and> MakeH1 [0, 0, 0, 0, 0, 0, 0, 0] = Some 0 \<and> MakeH1 (drop 4 [0, 0, 0, 0, 0, 0, 0, 0]) = Some 0
   \<and> rtranclp Encrypt_loop_rel (0, 0, 0, initial_globals) (0, 0, 0, initial_globals)
   \<and> fst (fst (Encrypt_loop 0 0 0 initial_globals)) < 2 ^ 32
   \<and> snd (fst (Encrypt_loop 0 0 0 initial_globals)) < 2 ^ 32
   \<and> rtranclp Decrypt_loop_rel (7, 0, 0, initial_globals) (7, 0, 0, initial_globals)
   \<and> fst (fst (Decrypt_loop 7 0 0 initial_globals)) < 2 ^ 32
   \<and> snd (fst (Decrypt_loop 7 0 0 initial_globals)) < 2 ^ 32"
proof -
  have len: "8 \<le> length [0x01, 0x23, 0x45, 0x67, 0x89, 0xab, 0xcd, 0xef :: ByteType]" by simp
  note T = halfwords_below_2_32 [OF globals_ok_initial len]
  have m: "MakeH1 [1, 2, 3, 4] = Some 0x04030201"
    by (simp add: MakeH1_eq pack4_def)
  have k: "K89 initial_globals < 2 ^ 32" "K1011 initial_globals < 2 ^ 32"
     "K1213 initial_globals < 2 ^ 32" "K1415 initial_globals < 2 ^ 32"
    by (simp_all add: initial_globals_def)
  have z: "MakeH1 [0, 0, 0, 0, 0, 0, 0, 0] = Some 0"
     "MakeH1 (drop 4 [0, 0, 0, 0, 0, 0, 0, 0]) = Some 0"
    by (simp_all add: MakeH1_eq pack4_def)
  have k0: "K89 initial_globals = 0" "K1011 initial_globals = 0"
     "K1213 initial_globals = 0" "K1415 initial_globals = 0"
    by (simp_all add: initial_globals_def)
  from T have 1: "(0x04030201 :: HalfWord) < 2 ^ 32" using m by blast
  from T have 2: "fst (f 5 7 initial_globals) < 2 ^ 32" "fst (FK 5 7 initial_globals) < 2 ^ 32"
    by blast+
  from T have 3: "\<exists>s1. SetKey [0x01, 0x23, 0x45, 0x67, 0x89, 0xab, 0xcd, 0xef] initial_globals = Some s1
         \<and> K89 s1 < 2 ^ 32 \<and> K1011 s1 < 2 ^ 32 \<and> K1213 s1 < 2 ^ 32 \<and> K1415 s1 < 2 ^ 32
         \<and> (3 :: nat) < 16 \<and> K s1 ! 3 < 2 ^ 16"
  proof -
    from T have "\<exists>s1. SetKey [0x01, 0x23, 0x45, 0x67, 0x89, 0xab, 0xcd, 0xef] initial_globals = Some s1
         \<and> K89 s1 < 2 ^ 32 \<and> K1011 s1 < 2 ^ 32 \<and> K1213 s1 < 2 ^ 32 \<and> K1415 s1 < 2 ^ 32
         \<and> (\<forall>i<16. K s1 ! i < 2 ^ 16)"
      by (elim conjE)
    then obtain s1 where "SetKey [0x01, 0x23, 0x45, 0x67, 0x89, 0xab, 0xcd, 0xef] initial_globals = Some s1"
        "K89 s1 < 2 ^ 32" "K1011 s1 < 2 ^ 32" "K1213 s1 < 2 ^ 32" "K1415 s1 < 2 ^ 32"
        "\<forall>i<16. K s1 ! i < 2 ^ 16"
      by blast
    then show ?thesis by simp
  qed
  from T have E: "\<forall>t B L0 R0.
             K89 t < 2 ^ 32 \<and> K1011 t < 2 ^ 32 \<and> K1213 t < 2 ^ 32 \<and> K1415 t < 2 ^ 32
             \<and> MakeH1 B = Some L0 \<and> MakeH1 (drop 4 B) = Some R0 \<longrightarrow>
             (let L1 = L0 XOR K89 t; R1 = R0 XOR K1011 t; R2 = R1 XOR L1
              in L1 < 2 ^ 32 \<and> R1 < 2 ^ 32 \<and> R2 < 2 ^ 32
               \<and> (\<forall>r L R t'. rtranclp Encrypt_loop_rel (r, L, R, t') (0, L1, R2, t)
                      \<longrightarrow> L < 2 ^ 32 \<and> R < 2 ^ 32)
               \<and> (let ((L8, R8), t8) = Encrypt_loop 0 L1 R2 t;
                       L9 = L8 XOR R8; R9 = R8 XOR K1213 t8; L10 = L9 XOR K1415 t8
                   in L8 < 2 ^ 32 \<and> R8 < 2 ^ 32 \<and> L9 < 2 ^ 32 \<and> R9 < 2 ^ 32 \<and> L10 < 2 ^ 32))"
    by (elim conjE)
  from T have F: "\<forall>t B R0 L0.
             K89 t < 2 ^ 32 \<and> K1011 t < 2 ^ 32 \<and> K1213 t < 2 ^ 32 \<and> K1415 t < 2 ^ 32
             \<and> MakeH1 B = Some R0 \<and> MakeH1 (drop 4 B) = Some L0 \<longrightarrow>
             (let R1 = R0 XOR K1213 t; L1 = L0 XOR K1415 t; L2 = L1 XOR R1
              in R1 < 2 ^ 32 \<and> L1 < 2 ^ 32 \<and> L2 < 2 ^ 32
               \<and> (\<forall>r L R t'. rtranclp Decrypt_loop_rel (r, L, R, t') (7, L2, R1, t)
                      \<longrightarrow> L < 2 ^ 32 \<and> R < 2 ^ 32)
               \<and> (let ((L8, R8), t8) = Decrypt_loop 7 L2 R1 t;
                       R9 = R8 XOR L8; R10 = R9 XOR K1011 t8; L9 = L8 XOR K89 t8
                   in L8 < 2 ^ 32 \<and> R8 < 2 ^ 32 \<and> R9 < 2 ^ 32 \<and> R10 < 2 ^ 32 \<and> L9 < 2 ^ 32))"
    by (elim conjE)
  have 4: "fst (fst (Encrypt_loop 0 0 0 initial_globals)) < 2 ^ 32"
      "snd (fst (Encrypt_loop 0 0 0 initial_globals)) < 2 ^ 32"
    using E[rule_format, of initial_globals "[0, 0, 0, 0, 0, 0, 0, 0]" 0 0] k z
    by (simp_all add: Let_def case_prod_beta k0)
  have 5: "fst (fst (Decrypt_loop 7 0 0 initial_globals)) < 2 ^ 32"
      "snd (fst (Decrypt_loop 7 0 0 initial_globals)) < 2 ^ 32"
    using F[rule_format, of initial_globals "[0, 0, 0, 0, 0, 0, 0, 0]" 0 0] k z
    by (simp_all add: Let_def case_prod_beta k0)
  show ?thesis
    using globals_ok_initial len m 1 2 3 k z 4 5 by (intro conjI) (assumption | rule rtranclp.rtrancl_refl)+
qed

text \<open>
  Claim C9. In every state and for every block of (at least) 8 bytes, \<open>Encrypt\<close> and
  \<open>Decrypt\<close> return, and in the state they leave the sixteen subkeys \<open>K[0..15]\<close> and
  the four whitening halfwords are those of the state they were called in, hence those
  that \<open>SetKey\<close> last stored. (The only variables they change are the statics of
  \<open>Rot2\<close>.)
\<close>

theorem key_schedule_unchanged:
  assumes "8 \<le> length Plain" and "8 \<le> length Cipher"
  shows "(\<exists>c s'. Encrypt Plain s = Some (c, s')
            \<and> K s' = K s \<and> K89 s' = K89 s \<and> K1011 s' = K1011 s
            \<and> K1213 s' = K1213 s \<and> K1415 s' = K1415 s)
       \<and> (\<exists>p s'. Decrypt Cipher s = Some (p, s')
            \<and> K s' = K s \<and> K89 s' = K89 s \<and> K1011 s' = K1011 s
            \<and> K1213 s' = K1213 s \<and> K1415 s' = K1415 s)"
  using Encrypt_total[OF assms(1), of s] Decrypt_total[OF assms(2), of s]
  by (simp add: schedule_def)

theorem key_schedule_unchanged_witness:
  "8 \<le> length [0, 0, 0, 0, 0, 0, 0, 0 :: ByteType]
   \<and> 8 \<le> length [1, 2, 3, 4, 5, 6, 7, 8 :: ByteType]
   \<and> (\<exists>c s'. Encrypt [0, 0, 0, 0, 0, 0, 0, 0] initial_globals = Some (c, s')
            \<and> K s' = K initial_globals \<and> K89 s' = K89 initial_globals
            \<and> K1011 s' = K1011 initial_globals
            \<and> K1213 s' = K1213 initial_globals \<and> K1415 s' = K1415 initial_globals)
   \<and> (\<exists>p s'. Decrypt [1, 2, 3, 4, 5, 6, 7, 8] initial_globals = Some (p, s')
            \<and> K s' = K initial_globals \<and> K89 s' = K89 initial_globals
            \<and> K1011 s' = K1011 initial_globals
            \<and> K1213 s' = K1213 initial_globals \<and> K1415 s' = K1415 initial_globals)"
  using key_schedule_unchanged [of "[0, 0, 0, 0, 0, 0, 0, 0]" "[1, 2, 3, 4, 5, 6, 7, 8]" initial_globals]
  by simp

text \<open>
  Claim C10, as stated, fails: a key of 9 bytes is not rejected; \<open>SetKey\<close> stores the
  schedule of its first 8 bytes.
\<close>

theorem SetKey_accepts_longer_key_counterexample:
  "SetKey [1, 2, 3, 4, 5, 6, 7, 8, 9] initial_globals \<noteq> None
   \<and> SetKey [1, 2, 3, 4, 5, 6, 7, 8, 9] initial_globals
       = SetKey [1, 2, 3, 4, 5, 6, 7, 8] initial_globals"
  by (simp add: SetKey_eq[OF globals_ok_initial] SetKey_spec_def)

text \<open>
  Claim C10, amended. \<open>SetKey\<close>, \<open>Encrypt\<close> and \<open>Decrypt\<close> take a pointer and check no
  length; the program has no error value. In a well-formed state, on an array of 8 bytes or
  more each of them returns, and the result is that for the first 8 bytes: the bytes after
  the eighth are ignored. On an array of fewer than 8 bytes they read past its end, which
  is undefined behaviour (the model's \<open>None\<close>).
\<close>

theorem no_length_check:
  assumes "globals_ok s"
  shows "(8 \<le> length B \<longrightarrow>
            SetKey B s \<noteq> None \<and> SetKey B s = SetKey (take 8 B) s
          \<and> Encrypt B s \<noteq> None \<and> Encrypt B s = Encrypt (take 8 B) s
          \<and> Decrypt B s \<noteq> None \<and> Decrypt B s = Decrypt (take 8 B) s)
       \<and> (length B < 8 \<longrightarrow> SetKey B s = None \<and> Encrypt B s = None \<and> Decrypt B s = None)"
proof -
  have long: "SetKey B s \<noteq> None \<and> SetKey B s = SetKey (take 8 B) s
          \<and> Encrypt B s \<noteq> None \<and> Encrypt B s = Encrypt (take 8 B) s
          \<and> Decrypt B s \<noteq> None \<and> Decrypt B s = Decrypt (take 8 B) s" if B: "8 \<le> length B"
  proof -
    have t: "8 \<le> length (take 8 B)" using B by simp
    have sk: "SetKey B s = SetKey (take 8 B) s" "SetKey B s \<noteq> None"
      using B by (simp_all add: SetKey_eq[OF assms B] SetKey_eq[OF assms t] SetKey_spec_def)
    have m: "MakeH1 (take 8 B) = MakeH1 B" "MakeH1 (drop 4 (take 8 B)) = MakeH1 (drop 4 B)"
      using B by (simp_all add: MakeH1_eq drop_take)
    have e: "Encrypt B s = Encrypt (take 8 B) s" "Decrypt B s = Decrypt (take 8 B) s"
      by (simp_all only: Encrypt_def Decrypt_def m)
    have n: "Encrypt B s \<noteq> None" "Decrypt B s \<noteq> None"
      using Encrypt_total[OF B, of s] Decrypt_total[OF B, of s] by auto
    show ?thesis using sk e n by simp
  qed
  have short: "SetKey B s = None \<and> Encrypt B s = None \<and> Decrypt B s = None" if B: "length B < 8"
  proof -
    have "MakeH1 B = None \<or> MakeH1 (drop 4 B) = None"
      using B by (cases "length B < 4") (simp_all add: MakeH1_None)
    then have "Encrypt B s = None" "Decrypt B s = None"
      by (auto simp: Encrypt_def Decrypt_def split: Option.bind_splits)
    then show ?thesis using B by (simp add: SetKey_None)
  qed
  show ?thesis using long short by blast
qed

theorem no_length_check_witness:
  "globals_ok initial_globals
   \<and> 8 \<le> length [1, 2, 3, 4, 5, 6, 7, 8, 9 :: ByteType]
   \<and> SetKey [1, 2, 3, 4, 5, 6, 7, 8, 9] initial_globals \<noteq> None
   \<and> SetKey [1, 2, 3, 4, 5, 6, 7, 8, 9] initial_globals
       = SetKey (take 8 [1, 2, 3, 4, 5, 6, 7, 8, 9]) initial_globals
   \<and> Encrypt [1, 2, 3, 4, 5, 6, 7, 8, 9] initial_globals \<noteq> None
   \<and> Encrypt [1, 2, 3, 4, 5, 6, 7, 8, 9] initial_globals
       = Encrypt (take 8 [1, 2, 3, 4, 5, 6, 7, 8, 9]) initial_globals
   \<and> Decrypt [1, 2, 3, 4, 5, 6, 7, 8, 9] initial_globals \<noteq> None
   \<and> Decrypt [1, 2, 3, 4, 5, 6, 7, 8, 9] initial_globals
       = Decrypt (take 8 [1, 2, 3, 4, 5, 6, 7, 8, 9]) initial_globals
   \<and> length [1, 2, 3 :: ByteType] < 8
   \<and> SetKey [1, 2, 3] initial_globals = None
   \<and> Encrypt [1, 2, 3] initial_globals = None
   \<and> Decrypt [1, 2, 3] initial_globals = None"
proof -
  have a: "8 \<le> length [1, 2, 3, 4, 5, 6, 7, 8, 9 :: ByteType]" by simp
  have b: "length [1, 2, 3 :: ByteType] < 8" by simp
  show ?thesis
    using no_length_check [OF globals_ok_initial, of "[1, 2, 3, 4, 5, 6, 7, 8, 9]"]
          no_length_check [OF globals_ok_initial, of "[1, 2, 3]"] a b globals_ok_initial
    by blast
qed

end
